theory Spec2Isabelle
  imports Main "HOL-Library.Monad_Syntax" "HOL-Library.List_Lexorder"
begin

section \<open>Byte strings and the built-ins used by the decoder\<close>

text \<open>
  A Python \<^verbatim>\<open>bytes\<close> value is a list of 8-bit characters. The line terminator of the
  program is the single byte 0x0A.
\<close>

type_synonym bytes = string

definition NL :: char where
  "NL = CHR 0x0A"

text \<open>\<^verbatim>\<open>content.find(b'\n')\<close>: the index of the first 0x0A; Python's -1 is \<open>None\<close>.\<close>

fun find_nl :: "bytes \<Rightarrow> nat option" where
  "find_nl [] = None"
| "find_nl (c # cs) = (if c = NL then Some 0 else map_option Suc (find_nl cs))"

text \<open>
  \<^verbatim>\<open>b.decode('ascii')\<close>: raises UnicodeDecodeError (here \<open>None\<close>) when a byte is
  above 0x7F, and is the identity otherwise.
\<close>

definition decode_ascii :: "bytes \<Rightarrow> string option" where
  "decode_ascii b = (if list_all (\<lambda>c. (of_char c :: nat) < 128) b then Some b else None)"

text \<open>
  The characters \<^verbatim>\<open>str.strip()\<close> removes, within ASCII: tab, LF, VT, FF, CR, the four
  separators 0x1C..0x1F and the space.
\<close>

definition ascii_space :: "char \<Rightarrow> bool" where
  "ascii_space c = (let n = (of_char c :: nat) in (9 \<le> n \<and> n \<le> 13) \<or> (28 \<le> n \<and> n \<le> 32))"

definition py_strip :: "string \<Rightarrow> string" where
  "py_strip s = rev (dropWhile ascii_space (rev (dropWhile ascii_space s)))"

definition is_digit :: "char \<Rightarrow> bool" where
  "is_digit c = (48 \<le> (of_char c :: nat) \<and> (of_char c :: nat) \<le> 57)"

definition digit_val :: "char \<Rightarrow> int" where
  "digit_val c = int (of_char c) - 48"

text \<open>
  The digit scan of \<^verbatim>\<open>int(s)\<close> in base 10: digits, with single underscores allowed
  between digits only. \<open>prev\<close> is the character read last (\<open>None\<close> at the start), \<open>acc\<close>
  the value so far. An empty digit string, a leading, trailing or doubled underscore and
  any other character raise ValueError (\<open>None\<close>).
\<close>

fun int_digits :: "char option \<Rightarrow> int \<Rightarrow> string \<Rightarrow> int option" where
  "int_digits prev acc [] =
     (if prev = None \<or> prev = Some (CHR ''_'') then None else Some acc)"
| "int_digits prev acc (c # cs) =
     (if c = CHR ''_'' then
        (if prev = None \<or> prev = Some (CHR ''_'') then None else int_digits (Some c) acc cs)
      else if is_digit c then int_digits (Some c) (10 * acc + digit_val c) cs
      else None)"

text \<open>
  \<^verbatim>\<open>int(s)\<close> on an ASCII string: surrounding whitespace is skipped, then an optional
  sign, then the digit scan. Python's integers are unbounded. The interpreter's cap on the
  number of digits of a decimal string (\<^verbatim>\<open>sys.set_int_max_str_digits\<close>, 4300 by default
  where it exists) is taken as switched off; with the cap, a longer string of digits is a
  ValueError like any other string that is no integer.
\<close>

definition py_int :: "string \<Rightarrow> int option" where
  "py_int s =
     (case py_strip s of
        [] \<Rightarrow> None
      | c # r \<Rightarrow>
          if c = CHR ''-'' then map_option uminus (int_digits None 0 r)
          else if c = CHR ''+'' then int_digits None 0 r
          else int_digits None 0 (c # r))"

text \<open>
  The slice \<^verbatim>\<open>xs[i:j]\<close> with Python's rules: a negative index counts from the end,
  every index is clamped to the range of the list, and an empty range gives the empty
  list.
\<close>

definition py_slice :: "'a list \<Rightarrow> int \<Rightarrow> int \<Rightarrow> 'a list" where
  "py_slice xs i j =
     (let n = int (length xs);
          lo = (if i < 0 then max 0 (n + i) else min n i);
          hi = (if j < 0 then max 0 (n + j) else min n j)
      in if lo < hi then take (nat (hi - lo)) (drop (nat lo) xs) else [])"

section \<open>The message decoder\<close>

text \<open>
  The expression inside the inner \<^verbatim>\<open>try\<close> of \<^verbatim>\<open>parse_emlx\<close>:
  \<^verbatim>\<open>int(content[:first_newline].decode('ascii').strip())\<close>. \<open>None\<close> stands for the
  ValueError or UnicodeDecodeError that the \<^verbatim>\<open>except\<close> clause catches.
\<close>

definition declared_count :: "bytes \<Rightarrow> nat \<Rightarrow> int option" where
  "declared_count content first_newline =
     (case decode_ascii (take first_newline content) of
        None \<Rightarrow> None
      | Some s \<Rightarrow> py_int (py_strip s))"

text \<open>
  \<^verbatim>\<open>parse_emlx\<close> from the point where the file has been read: \<open>None\<close> when there is no
  line terminator; otherwise the slice that starts after the first line and has the
  declared length, or, when the first line is no integer, the length of everything
  that follows.
\<close>

definition parse_emlx_bytes :: "bytes \<Rightarrow> bytes option" where
  "parse_emlx_bytes content =
     (case find_nl content of
        None \<Rightarrow> None
      | Some first_newline \<Rightarrow>
          let byte_count =
                (case declared_count content first_newline of
                   Some n \<Rightarrow> n
                 | None \<Rightarrow> int (length content) - int first_newline - 1);
              email_start = int first_newline + 1
          in Some (py_slice content email_start (email_start + byte_count)))"

text \<open>
  The decimal rendering of a length, as \<^verbatim>\<open>f"{len(email_content)}"\<close> writes it.
\<close>

fun decimal :: "nat \<Rightarrow> string" where
  "decimal n =
     (if n < 10 then [char_of (48 + n)]
      else decimal (n div 10) @ [char_of (48 + n mod 10)])"

declare decimal.simps [simp del]

section \<open>From-line escaping\<close>

text \<open>
  \<^verbatim>\<open>content.split(b'\n')\<close>: the pieces between the line terminators; the empty byte
  string splits into one empty piece, and a terminator at the end leaves an empty last
  piece.
\<close>

fun split_nl :: "bytes \<Rightarrow> bytes list" where
  "split_nl [] = [[]]"
| "split_nl (c # cs) =
     (if c = NL then [] # split_nl cs
      else (case split_nl cs of
              [] \<Rightarrow> [[c]]
            | l # ls \<Rightarrow> (c # l) # ls))"

text \<open>\<^verbatim>\<open>b'\n'.join(lines)\<close>.\<close>

fun join_nl :: "bytes list \<Rightarrow> bytes" where
  "join_nl [] = []"
| "join_nl [l] = l"
| "join_nl (l # m # ls) = l @ NL # join_nl (m # ls)"

text \<open>\<^verbatim>\<open>s.startswith(p)\<close> and \<^verbatim>\<open>s.endswith(p)\<close>, on any kind of string.\<close>

definition startswith :: "'a list \<Rightarrow> 'a list \<Rightarrow> bool" where
  "startswith s p = (take (length p) s = p)"

definition endswith :: "'a list \<Rightarrow> 'a list \<Rightarrow> bool" where
  "endswith s p = (length p \<le> length s \<and> drop (length s - length p) s = p)"

text \<open>
  The loop of \<^verbatim>\<open>escape_from_lines\<close>: \<open>escaped\<close> is the list the source appends to.
\<close>

fun escape_loop :: "bytes list \<Rightarrow> bytes list \<Rightarrow> bytes list" where
  "escape_loop [] escaped = escaped"
| "escape_loop (line # lines) escaped =
     (if startswith line ''From '' then escape_loop lines (escaped @ [''>From '' @ drop 5 line])
      else escape_loop lines (escaped @ [line]))"

definition escape_from_lines :: "bytes \<Rightarrow> bytes" where
  "escape_from_lines content = join_nl (escape_loop (split_nl content) [])"

section \<open>Text: code points, UTF-8 and the interpreter's character tables\<close>

text \<open>
  A Python \<^verbatim>\<open>str\<close> is a list of Unicode code points. \<open>asc\<close> turns an ASCII literal
  into such a list.
\<close>

type_synonym ustr = "nat list"

definition asc :: "string \<Rightarrow> ustr" where
  "asc s = map of_char s"

definition byte_vals :: "bytes \<Rightarrow> nat list" where
  "byte_vals b = map of_char b"

definition is_cont :: "nat \<Rightarrow> bool" where
  "is_cont b = (0x80 \<le> b \<and> b < 0xC0)"

text \<open>
  \<^verbatim>\<open>b.decode('utf-8', errors='replace')\<close> on the byte values, one step: from the
  lead byte \<open>b\<close> and the bytes \<open>bs\<close> after it, the code point produced and the number
  of bytes of \<open>bs\<close> used up. A well-formed sequence gives its code point (\<open>cp2\<close>, \<open>cp3\<close>,
  \<open>cp4\<close> for two, three and four bytes). An ill-formed
  one is replaced by U+FFFD and decoding goes on after the bytes that were rejected: one
  byte for a bad lead byte or a bad second byte, two for a bad third byte, three for a
  bad fourth byte; a sequence cut off by the end of the input is replaced by a single
  U+FFFD. Overlong forms, surrogates and code points above U+10FFFF are rejected at the
  second byte.
\<close>

definition cp2 :: "nat \<Rightarrow> nat \<Rightarrow> nat" where
  "cp2 b b2 = (b - 0xC0) * 64 + (b2 - 0x80)"

definition cp3 :: "nat \<Rightarrow> nat \<Rightarrow> nat \<Rightarrow> nat" where
  "cp3 b b2 b3 = (b - 0xE0) * 4096 + (b2 - 0x80) * 64 + (b3 - 0x80)"

definition cp4 :: "nat \<Rightarrow> nat \<Rightarrow> nat \<Rightarrow> nat \<Rightarrow> nat" where
  "cp4 b b2 b3 b4 = (b - 0xF0) * 262144 + (b2 - 0x80) * 4096 + (b3 - 0x80) * 64 + (b4 - 0x80)"

definition utf8_next :: "nat \<Rightarrow> nat list \<Rightarrow> nat \<times> nat" where
  "utf8_next b bs =
     (if b < 0x80 then (b, 0)
      else if b < 0xC2 then (0xFFFD, 0)
      else if b < 0xE0 then
        (case bs of
           [] \<Rightarrow> (0xFFFD, 0)
         | b2 # r2 \<Rightarrow>
             if is_cont b2 then (cp2 b b2, 1)
             else (0xFFFD, 0))
      else if b < 0xF0 then
        (case bs of
           [] \<Rightarrow> (0xFFFD, 0)
         | b2 # r2 \<Rightarrow>
             if \<not> is_cont b2 \<or> (if b2 < 0xA0 then b = 0xE0 else b = 0xED)
             then (0xFFFD, 0)
             else (case r2 of
                     [] \<Rightarrow> (0xFFFD, 1)
                   | b3 # r3 \<Rightarrow>
                       if is_cont b3
                       then (cp3 b b2 b3, 2)
                       else (0xFFFD, 1)))
      else if b < 0xF5 then
        (case bs of
           [] \<Rightarrow> (0xFFFD, 0)
         | b2 # r2 \<Rightarrow>
             if \<not> is_cont b2 \<or> (if b2 < 0x90 then b = 0xF0 else b = 0xF4)
             then (0xFFFD, 0)
             else (case r2 of
                     [] \<Rightarrow> (0xFFFD, 1)
                   | b3 # r3 \<Rightarrow>
                       if \<not> is_cont b3 then (0xFFFD, 1)
                       else (case r3 of
                               [] \<Rightarrow> (0xFFFD, 2)
                             | b4 # r4 \<Rightarrow>
                                 if is_cont b4
                                 then (cp4 b b2 b3 b4, 3)
                                 else (0xFFFD, 2))))
      else (0xFFFD, 0))"

fun utf8_dec :: "nat list \<Rightarrow> ustr" where
  "utf8_dec [] = []"
| "utf8_dec (b # bs) = fst (utf8_next b bs) # utf8_dec (drop (snd (utf8_next b bs)) bs)"

definition decode_utf8_replace :: "bytes \<Rightarrow> ustr" where
  "decode_utf8_replace b = utf8_dec (byte_vals b)"

text \<open>
  \<^verbatim>\<open>s.encode('utf-8')\<close>, one code point at a time; a surrogate (or a number that is no
  code point) raises UnicodeEncodeError, here \<open>None\<close>.
\<close>

definition utf8_enc_cp :: "nat \<Rightarrow> nat list option" where
  "utf8_enc_cp c =
     (if c < 0x80 then Some [c]
      else if c < 0x800 then Some [0xC0 + c div 64, 0x80 + c mod 64]
      else if 0xD800 \<le> c \<and> c < 0xE000 then None
      else if c < 0x10000 then
        Some [0xE0 + c div 4096, 0x80 + (c div 64) mod 64, 0x80 + c mod 64]
      else if c < 0x110000 then
        Some [0xF0 + c div 262144, 0x80 + (c div 4096) mod 64,
              0x80 + (c div 64) mod 64, 0x80 + c mod 64]
      else None)"

fun encode_utf8 :: "ustr \<Rightarrow> bytes option" where
  "encode_utf8 [] = Some []"
| "encode_utf8 (c # cs) =
     (case utf8_enc_cp c of
        None \<Rightarrow> None
      | Some bs \<Rightarrow>
          (case encode_utf8 cs of
             None \<Rightarrow> None
           | Some rest \<Rightarrow> Some (map char_of bs @ rest)))"

text \<open>
  The code points that \<^verbatim>\<open>str.strip()\<close>, \<^verbatim>\<open>str.split()\<close> and the pattern \<^verbatim>\<open>\s\<close> treat
  as whitespace.
\<close>

definition uspace :: "nat \<Rightarrow> bool" where
  "uspace c =
     ((9 \<le> c \<and> c \<le> 13) \<or> (28 \<le> c \<and> c \<le> 32) \<or> c = 0x85 \<or> c = 0xA0 \<or> c = 0x1680
      \<or> (0x2000 \<le> c \<and> c \<le> 0x200A) \<or> c = 0x2028 \<or> c = 0x2029 \<or> c = 0x202F
      \<or> c = 0x205F \<or> c = 0x3000)"

definition ustrip :: "ustr \<Rightarrow> ustr" where
  "ustrip s = rev (dropWhile uspace (rev (dropWhile uspace s)))"

text \<open>
  \<^verbatim>\<open>s.split()[0]\<close>: the first run of characters that are no whitespace; IndexError
  (\<open>None\<close>) when there is none.
\<close>

definition split_first :: "ustr \<Rightarrow> ustr option" where
  "split_first s =
     (case dropWhile uspace s of
        [] \<Rightarrow> None
      | c # r \<Rightarrow> Some (takeWhile (\<lambda>x. \<not> uspace x) (c # r)))"

text \<open>
  Two tables of the interpreter's Unicode database are inputs of the model, asked only
  about code points outside ASCII: the value of a decimal digit (for the pattern \<^verbatim>\<open>\d\<close>
  and for \<^verbatim>\<open>int\<close>) and whether a character is alphanumeric (for the pattern \<^verbatim>\<open>\w\<close>).
\<close>

record unicode_db =
  decimal_value :: "nat \<Rightarrow> nat option"
  alphanumeric :: "nat \<Rightarrow> bool"

definition digit_of :: "unicode_db \<Rightarrow> nat \<Rightarrow> nat option" where
  "digit_of U c =
     (if c < 128 then (if 48 \<le> c \<and> c \<le> 57 then Some (c - 48) else None)
      else map_option (\<lambda>d. d mod 10) (decimal_value U c))"

definition is_udigit :: "unicode_db \<Rightarrow> nat \<Rightarrow> bool" where
  "is_udigit U c = (digit_of U c \<noteq> None)"

definition is_word :: "unicode_db \<Rightarrow> nat \<Rightarrow> bool" where
  "is_word U c =
     (if c < 128 then (48 \<le> c \<and> c \<le> 57) \<or> (65 \<le> c \<and> c \<le> 90) \<or> (97 \<le> c \<and> c \<le> 122) \<or> c = 95
      else alphanumeric U c)"

text \<open>The value \<^verbatim>\<open>int\<close> gives to a string of digits that a pattern has matched.\<close>

definition digits_value :: "unicode_db \<Rightarrow> ustr \<Rightarrow> nat" where
  "digits_value U ds = foldl (\<lambda>a c. 10 * a + (case digit_of U c of Some d \<Rightarrow> d | None \<Rightarrow> 0)) 0 ds"

section \<open>Patterns\<close>

text \<open>
  A piece of a regular expression maps the text at the current position to the ways it
  can match there, in the order in which the backtracking matcher tries them; a way is
  the text matched and the text that remains. The match the library reports is the first
  way of the whole pattern.
\<close>

type_synonym matches = "(ustr \<times> ustr) list"

definition is_ch :: "char \<Rightarrow> nat \<Rightarrow> bool" where
  "is_ch a c = (c = of_char a)"

definition in_rng :: "char \<Rightarrow> char \<Rightarrow> nat \<Rightarrow> bool" where
  "in_rng a b c = (of_char a \<le> c \<and> c \<le> of_char b)"

definition one_of :: "(nat \<Rightarrow> bool) \<Rightarrow> ustr \<Rightarrow> matches" where
  "one_of P s = (case s of c # r \<Rightarrow> if P c then [([c], r)] else [] | [] \<Rightarrow> [])"

definition two_of :: "(nat \<Rightarrow> bool) \<Rightarrow> (nat \<Rightarrow> bool) \<Rightarrow> ustr \<Rightarrow> matches" where
  "two_of P Q s =
     (case s of
        a # b # r \<Rightarrow> if P a \<and> Q b then [([a, b], r)] else []
      | _ \<Rightarrow> [])"

text \<open>\<^verbatim>\<open>X*\<close>, greedy: the longest run first, then each shorter one.\<close>

fun greedy_star :: "(nat \<Rightarrow> bool) \<Rightarrow> ustr \<Rightarrow> matches" where
  "greedy_star P [] = [([], [])]"
| "greedy_star P (c # cs) =
     (if P c then map (\<lambda>(m, r). (c # m, r)) (greedy_star P cs) @ [([], c # cs)]
      else [([], c # cs)])"

text \<open>\<^verbatim>\<open>X+\<close>, greedy.\<close>

definition greedy_plus :: "(nat \<Rightarrow> bool) \<Rightarrow> ustr \<Rightarrow> matches" where
  "greedy_plus P s =
     (case s of
        [] \<Rightarrow> []
      | c # cs \<Rightarrow> if P c then map (\<lambda>(m, r). (c # m, r)) (greedy_star P cs) else [])"

text \<open>\<^verbatim>\<open>X+?\<close>, lazy: the shortest run first.\<close>

fun lazy_plus :: "(nat \<Rightarrow> bool) \<Rightarrow> ustr \<Rightarrow> matches" where
  "lazy_plus P [] = []"
| "lazy_plus P (c # cs) =
     (if P c then ([c], cs) # map (\<lambda>(m, r). (c # m, r)) (lazy_plus P cs) else [])"

text \<open>\<^verbatim>\<open>X{1,n}\<close>, greedy.\<close>

fun greedy_upto :: "nat \<Rightarrow> (nat \<Rightarrow> bool) \<Rightarrow> ustr \<Rightarrow> matches" where
  "greedy_upto 0 P s = []"
| "greedy_upto (Suc n) P [] = []"
| "greedy_upto (Suc n) P (c # cs) =
     (if P c then map (\<lambda>(m, r). (c # m, r)) (greedy_upto n P cs) @ [([c], cs)] else [])"

text \<open>\<^verbatim>\<open>(X)?\<close>, greedy: with \<open>X\<close> first, then without.\<close>

definition optional :: "(ustr \<Rightarrow> matches) \<Rightarrow> ustr \<Rightarrow> matches" where
  "optional p s = p s @ [([], s)]"

text \<open>\<^verbatim>\<open>XY\<close>: every way of \<open>X\<close> followed by every way of \<open>Y\<close>.\<close>

definition followed_by :: "(ustr \<Rightarrow> matches) \<Rightarrow> (ustr \<Rightarrow> matches) \<Rightarrow> ustr \<Rightarrow> matches" where
  "followed_by p q s =
     concat (map (\<lambda>(m1, r1). map (\<lambda>(m2, r2). (m1 @ m2, r2)) (q r1)) (p s))"

text \<open>
  A literal under \<^verbatim>\<open>re.IGNORECASE\<close>, given in lower case: a letter matches itself and
  its capital. (The library also folds U+017F to s, U+212A to k and U+0130, U+0131 to i;
  the literals \<^verbatim>\<open>from:\<close> and \<^verbatim>\<open>date:\<close> hold none of these letters.)
\<close>

definition ci_eq :: "nat \<Rightarrow> nat \<Rightarrow> bool" where
  "ci_eq p c = (c = p \<or> (97 \<le> p \<and> p \<le> 122 \<and> c + 32 = p))"

fun lit_ci :: "ustr \<Rightarrow> ustr \<Rightarrow> ustr list" where
  "lit_ci [] s = [s]"
| "lit_ci (p # ps) [] = []"
| "lit_ci (p # ps) (c # cs) = (if ci_eq p c then lit_ci ps cs else [])"

text \<open>
  The pattern \<^verbatim>\<open>^NAME:\s*(.+?)$\<close> with \<^verbatim>\<open>re.MULTILINE | re.IGNORECASE\<close>, tried at a
  position that is the start of a line; \<open>name\<close> is \<^verbatim>\<open>name:\<close> in lower case. The result
  lists the values of group 1. \<^verbatim>\<open>.\<close> matches everything but the line terminator, and
  \<^verbatim>\<open>$\<close> holds at the end of the text and before a line terminator.
\<close>

definition field_at :: "ustr \<Rightarrow> ustr \<Rightarrow> ustr list" where
  "field_at name s =
     do {
       r1 \<leftarrow> lit_ci name s;
       (w, r2) \<leftarrow> greedy_star uspace r1;
       (g, r3) \<leftarrow> lazy_plus (\<lambda>c. c \<noteq> 10) r2;
       if r3 = [] \<or> hd r3 = 10 then [g] else []
     }"

text \<open>
  \<^verbatim>\<open>re.search\<close> for that pattern: the positions are tried from left to right; \<open>bol\<close>
  says whether the current position is the start of the text or follows a line
  terminator, where \<^verbatim>\<open>^\<close> holds. The result is group 1 of the first match.
\<close>

fun field_search :: "ustr \<Rightarrow> bool \<Rightarrow> ustr \<Rightarrow> ustr option" where
  "field_search name bol [] =
     (case (if bol then field_at name [] else []) of g # _ \<Rightarrow> Some g | [] \<Rightarrow> None)"
| "field_search name bol (c # cs) =
     (case (if bol then field_at name (c # cs) else []) of
        g # _ \<Rightarrow> Some g
      | [] \<Rightarrow> field_search name (c = 10) cs)"

text \<open>The pattern \<^verbatim>\<open><([^>]+)>\<close> at one position, and \<^verbatim>\<open>re.search\<close> for it.\<close>

definition angle_at :: "ustr \<Rightarrow> ustr list" where
  "angle_at s =
     do {
       (l, r1) \<leftarrow> one_of (is_ch (CHR ''<'')) s;
       (g, r2) \<leftarrow> greedy_plus (\<lambda>c. c \<noteq> of_char (CHR ''>'')) r1;
       (r, r3) \<leftarrow> one_of (is_ch (CHR ''>'')) r2;
       [g]
     }"

fun angle_search :: "ustr \<Rightarrow> ustr option" where
  "angle_search [] = None"
| "angle_search (c # cs) =
     (case angle_at (c # cs) of g # _ \<Rightarrow> Some g | [] \<Rightarrow> angle_search cs)"

section \<open>Dates and times\<close>

text \<open>
  The fields of a \<^verbatim>\<open>datetime\<close> that the program reads. The library builds only
  values that pass \<open>valid_datetime\<close>.
\<close>

record datetime =
  year :: nat
  month :: nat
  day :: nat
  hour :: nat
  minute :: nat
  second :: nat

definition is_leap :: "nat \<Rightarrow> bool" where
  "is_leap y = (y mod 4 = 0 \<and> (y mod 100 \<noteq> 0 \<or> y mod 400 = 0))"

definition days_in_month :: "nat \<Rightarrow> nat \<Rightarrow> nat" where
  "days_in_month y m =
     (if m = 2 then (if is_leap y then 29 else 28)
      else if m = 4 \<or> m = 6 \<or> m = 9 \<or> m = 11 then 30
      else 31)"

definition valid_datetime :: "datetime \<Rightarrow> bool" where
  "valid_datetime dt =
     (1 \<le> year dt \<and> year dt \<le> 9999 \<and> 1 \<le> month dt \<and> month dt \<le> 12 \<and>
      1 \<le> day dt \<and> day dt \<le> days_in_month (year dt) (month dt) \<and>
      hour dt < 24 \<and> minute dt < 60 \<and> second dt < 60)"

text \<open>
  The constructor \<^verbatim>\<open>datetime(y, m, d, H, M, S)\<close>: ValueError (\<open>None\<close>) when a field is
  out of range.
\<close>

definition make_datetime :: "nat \<Rightarrow> nat \<Rightarrow> nat \<Rightarrow> nat \<Rightarrow> nat \<Rightarrow> nat \<Rightarrow> datetime option" where
  "make_datetime y m d H M S =
     (let dt = \<lparr>year = y, month = m, day = d, hour = H, minute = M, second = S\<rparr>
      in if valid_datetime dt then Some dt else None)"

text \<open>
  The day of the week, Monday being 0: the proleptic Gregorian ordinal of the date
  plus 6, modulo 7.
\<close>

definition days_before_year :: "nat \<Rightarrow> nat" where
  "days_before_year y = (y - 1) * 365 + (y - 1) div 4 - (y - 1) div 100 + (y - 1) div 400"

definition days_before_month :: "nat \<Rightarrow> nat \<Rightarrow> nat" where
  "days_before_month y m =
     sum_list (map (days_in_month y) (take (m - 1) [1, 2, 3, 4, 5, 6, 7, 8, 9, 10, 11, 12]))"

definition weekday :: "datetime \<Rightarrow> nat" where
  "weekday dt =
     (days_before_year (year dt) + days_before_month (year dt) (month dt) + day dt + 6) mod 7"

definition day_names :: "string list" where
  "day_names = [''Mon'', ''Tue'', ''Wed'', ''Thu'', ''Fri'', ''Sat'', ''Sun'']"

definition month_names :: "string list" where
  "month_names = [''Jan'', ''Feb'', ''Mar'', ''Apr'', ''May'', ''Jun'',
                  ''Jul'', ''Aug'', ''Sep'', ''Oct'', ''Nov'', ''Dec'']"

definition digit_char :: "nat \<Rightarrow> char" where
  "digit_char d = ''0123456789'' ! (d mod 10)"

definition pad2 :: "nat \<Rightarrow> string" where
  "pad2 n = [digit_char (n div 10), digit_char n]"

definition pad4 :: "nat \<Rightarrow> string" where
  "pad4 n = [digit_char (n div 1000), digit_char (n div 100), digit_char (n div 10), digit_char n]"

text \<open>
  \<^verbatim>\<open>dt.strftime('%a %b %d %H:%M:%S %Y')\<close> with the names of the C locale, which is in
  force since the program sets no locale, and the year written with four digits, as the
  C library of the program's platform (macOS) writes it.
\<close>

definition strftime :: "datetime \<Rightarrow> string" where
  "strftime dt =
     day_names ! weekday dt @ '' '' @ month_names ! (month dt - 1) @ '' '' @ pad2 (day dt) @ '' '' @
     pad2 (hour dt) @ '':'' @ pad2 (minute dt) @ '':'' @ pad2 (second dt) @ '' '' @ pad4 (year dt)"

subsection \<open>Parsing a date\<close>

text \<open>
  The patterns that \<^verbatim>\<open>strptime\<close> (CPython 3.7 and later) compiles for the directives of
  the four formats, with the alternatives of each in the library's order. The whole pattern is matched with
  \<^verbatim>\<open>re.IGNORECASE\<close>; a blank of the format stands for \<^verbatim>\<open>\s+\<close>.

  \<^verbatim>\<open>%d\<close> is \<^verbatim>\<open>3[0-1]|[1-2]\d|0[1-9]|[1-9]| [1-9]\<close>, \<^verbatim>\<open>%H\<close> is \<^verbatim>\<open>2[0-3]|[0-1]\d|\d\<close>,
  \<^verbatim>\<open>%M\<close> is \<^verbatim>\<open>[0-5]\d|\d\<close>, \<^verbatim>\<open>%S\<close> is \<^verbatim>\<open>6[0-1]|[0-5]\d|\d\<close>, \<^verbatim>\<open>%Y\<close> is \<^verbatim>\<open>\d\d\d\d\<close>.
\<close>

definition re_d :: "unicode_db \<Rightarrow> ustr \<Rightarrow> matches" where
  "re_d U s =
     two_of (is_ch (CHR ''3'')) (in_rng (CHR ''0'') (CHR ''1'')) s @
     two_of (in_rng (CHR ''1'') (CHR ''2'')) (is_udigit U) s @
     two_of (is_ch (CHR ''0'')) (in_rng (CHR ''1'') (CHR ''9'')) s @
     one_of (in_rng (CHR ''1'') (CHR ''9'')) s @
     two_of (is_ch (CHR '' '')) (in_rng (CHR ''1'') (CHR ''9'')) s"

definition re_H :: "unicode_db \<Rightarrow> ustr \<Rightarrow> matches" where
  "re_H U s =
     two_of (is_ch (CHR ''2'')) (in_rng (CHR ''0'') (CHR ''3'')) s @
     two_of (in_rng (CHR ''0'') (CHR ''1'')) (is_udigit U) s @
     one_of (is_udigit U) s"

definition re_M :: "unicode_db \<Rightarrow> ustr \<Rightarrow> matches" where
  "re_M U s =
     two_of (in_rng (CHR ''0'') (CHR ''5'')) (is_udigit U) s @
     one_of (is_udigit U) s"

definition re_S :: "unicode_db \<Rightarrow> ustr \<Rightarrow> matches" where
  "re_S U s =
     two_of (is_ch (CHR ''6'')) (in_rng (CHR ''0'') (CHR ''1'')) s @
     two_of (in_rng (CHR ''0'') (CHR ''5'')) (is_udigit U) s @
     one_of (is_udigit U) s"

definition re_Y :: "unicode_db \<Rightarrow> ustr \<Rightarrow> matches" where
  "re_Y U s =
     followed_by (two_of (is_udigit U) (is_udigit U)) (two_of (is_udigit U) (is_udigit U)) s"

text \<open>
  \<^verbatim>\<open>%a\<close> and \<^verbatim>\<open>%b\<close>: the abbreviated names in lower case, matched without regard to
  case. \<open>re_b\<close> pairs each way with the number of the month. (A name written with one of
  the library's extra case folds matches the pattern but is then not found in the table
  of names, which is a ValueError as well.)
\<close>

definition re_a :: "ustr \<Rightarrow> ustr list" where
  "re_a s =
     concat (map (\<lambda>n. lit_ci (asc n) s)
       [''mon'', ''tue'', ''wed'', ''thu'', ''fri'', ''sat'', ''sun''])"

definition re_b :: "ustr \<Rightarrow> (nat \<times> ustr) list" where
  "re_b s =
     concat (map (\<lambda>(i, n). map (\<lambda>r. (i, r)) (lit_ci (asc n) s))
       [(1, ''jan''), (2, ''feb''), (3, ''mar''), (4, ''apr''), (5, ''may''), (6, ''jun''),
        (7, ''jul''), (8, ''aug''), (9, ''sep''), (10, ''oct''), (11, ''nov''), (12, ''dec'')])"

text \<open>
  \<^verbatim>\<open>%z\<close> is \<^verbatim>\<open>[+-]\d\d:?[0-5]\d(:?[0-5]\d(\.\d{1,6})?)?|(?-i:Z)\<close>.
\<close>

definition re_z :: "unicode_db \<Rightarrow> ustr \<Rightarrow> matches" where
  "re_z U s =
     followed_by (one_of (\<lambda>c. is_ch (CHR ''+'') c \<or> is_ch (CHR ''-'') c))
       (followed_by (two_of (is_udigit U) (is_udigit U))
         (followed_by (optional (one_of (is_ch (CHR '':''))))
           (followed_by (two_of (in_rng (CHR ''0'') (CHR ''5'')) (is_udigit U))
             (optional
               (followed_by (optional (one_of (is_ch (CHR '':''))))
                 (followed_by (two_of (in_rng (CHR ''0'') (CHR ''5'')) (is_udigit U))
                   (optional
                     (followed_by (one_of (is_ch (CHR ''.'')))
                       (greedy_upto 6 (is_udigit U)))))))))) s @
     one_of (is_ch (CHR ''Z'')) s"

text \<open>
  What \<^verbatim>\<open>strptime\<close> does with the text of \<^verbatim>\<open>%z\<close>: a colon after the hours is dropped
  and must then be followed by a colon after the minutes when seconds are given; the
  hours, minutes and seconds are converted with \<^verbatim>\<open>int\<close>; the offset must be less than
  24 hours. \<open>False\<close> stands for the ValueError of any of these steps.
\<close>

definition tz_valid :: "unicode_db \<Rightarrow> ustr \<Rightarrow> bool" where
  "tz_valid U z =
     (if z = asc ''Z'' then True
      else if z ! 3 = of_char (CHR '':'') then
        (let z1 = take 3 z @ drop 4 z
         in (length z1 > 5 \<longrightarrow> z1 ! 5 = of_char (CHR '':'')) \<and>
            digits_value U (take 2 (drop 1 z1)) < 24)
      else list_all (is_udigit U) (take 2 (drop 5 z)) \<and>
           digits_value U (take 2 (drop 1 z)) < 24)"

text \<open>
  The pattern of \<^verbatim>\<open>%d %b %Y %H:%M:%S\<close>, the part that the four formats share; a way is
  the six numbers and the text that remains. \<^verbatim>\<open>int\<close> skips the blank that \<^verbatim>\<open>%d\<close> may
  have matched before a single digit.
\<close>

definition re_date_time :: "unicode_db \<Rightarrow> ustr \<Rightarrow> ((nat \<times> nat \<times> nat \<times> nat \<times> nat \<times> nat) \<times> ustr) list" where
  "re_date_time U s =
     do {
       (d, r1) \<leftarrow> re_d U s;
       (w1, r2) \<leftarrow> greedy_plus uspace r1;
       (b, r3) \<leftarrow> re_b r2;
       (w2, r4) \<leftarrow> greedy_plus uspace r3;
       (Y, r5) \<leftarrow> re_Y U r4;
       (w3, r6) \<leftarrow> greedy_plus uspace r5;
       (H, r7) \<leftarrow> re_H U r6;
       (c1, r8) \<leftarrow> one_of (is_ch (CHR '':'')) r7;
       (M, r9) \<leftarrow> re_M U r8;
       (c2, r10) \<leftarrow> one_of (is_ch (CHR '':'')) r9;
       (S, r11) \<leftarrow> re_S U r10;
       [((digits_value U Y, b, digits_value U (filter (\<lambda>c. c \<noteq> 32) d),
          digits_value U H, digits_value U M, digits_value U S), r11)]
     }"

text \<open>
  The four formats of the source differ in two points: whether they start with
  \<^verbatim>\<open>%a, \<close> and whether they end with \<^verbatim>\<open> %z\<close>. A way of the whole pattern is the six
  numbers, the text of \<^verbatim>\<open>%z\<close> if the format has it, and the text that remains.
\<close>

definition re_format ::
  "unicode_db \<Rightarrow> bool \<Rightarrow> bool \<Rightarrow> ustr \<Rightarrow>
   ((nat \<times> nat \<times> nat \<times> nat \<times> nat \<times> nat) \<times> ustr option \<times> ustr) list" where
  "re_format U with_a with_z s =
     do {
       r1 \<leftarrow> (if with_a
               then do {
                 r \<leftarrow> re_a s;
                 (c, r') \<leftarrow> one_of (is_ch (CHR '','')) r;
                 (w, r'') \<leftarrow> greedy_plus uspace r';
                 [r'']
               }
               else [s]);
       (f, r2) \<leftarrow> re_date_time U r1;
       (if with_z
        then do {
          (w, r3) \<leftarrow> greedy_plus uspace r2;
          (z, r4) \<leftarrow> re_z U r3;
          [(f, Some z, r4)]
        }
        else [(f, None, r2)])
     }"

text \<open>
  \<^verbatim>\<open>datetime.strptime(s, fmt)\<close>: the first way of the pattern must use up the text, the
  zone must convert, and the fields must make a date and time. \<open>None\<close> is ValueError.
\<close>

definition strptime :: "unicode_db \<Rightarrow> bool \<Rightarrow> bool \<Rightarrow> ustr \<Rightarrow> datetime option" where
  "strptime U with_a with_z s =
     (case re_format U with_a with_z s of
        [] \<Rightarrow> None
      | ((Y, b, d, H, M, S), z, rest) # _ \<Rightarrow>
          if rest \<noteq> [] then None
          else if (case z of Some t \<Rightarrow> \<not> tz_valid U t | None \<Rightarrow> False) then None
          else make_datetime Y b d H M S)"

text \<open>
  The loop over the formats: \<^verbatim>\<open>'%a, %d %b %Y %H:%M:%S %z'\<close>, \<^verbatim>\<open>'%d %b %Y %H:%M:%S %z'\<close>,
  \<^verbatim>\<open>'%a, %d %b %Y %H:%M:%S'\<close>, \<^verbatim>\<open>'%d %b %Y %H:%M:%S'\<close>; the first that parses wins.
\<close>

definition date_formats :: "(bool \<times> bool) list" where
  "date_formats = [(True, True), (False, True), (True, False), (False, False)]"

fun try_formats :: "unicode_db \<Rightarrow> (bool \<times> bool) list \<Rightarrow> ustr \<Rightarrow> datetime option" where
  "try_formats U [] s = None"
| "try_formats U ((with_a, with_z) # fmts) s =
     (case strptime U with_a with_z s of
        Some dt \<Rightarrow> Some dt
      | None \<Rightarrow> try_formats U fmts s)"

section \<open>The envelope line\<close>

text \<open>
  \<^verbatim>\<open>email_content.split(b'\n\n')[0]\<close>: the bytes before the first pair of line
  terminators, or all of them.
\<close>

fun header_section :: "bytes \<Rightarrow> bytes" where
  "header_section [] = []"
| "header_section [c] = [c]"
| "header_section (c # d # cs) =
     (if c = NL \<and> d = NL then [] else c # header_section (d # cs))"

definition mailer_daemon :: ustr where
  "mailer_daemon = asc ''MAILER-DAEMON''"

text \<open>
  The sender, lines 83 to 93 of the source. \<open>None\<close> is the IndexError that
  \<^verbatim>\<open>sender_raw.split()[0]\<close> raises on a list without elements.
\<close>

definition extract_sender :: "ustr \<Rightarrow> ustr option" where
  "extract_sender headers =
     (case field_search (asc ''from:'') True headers of
        None \<Rightarrow> Some mailer_daemon
      | Some g \<Rightarrow>
          let sender_raw = ustrip g
          in (case angle_search sender_raw of
                Some a \<Rightarrow> Some a
              | None \<Rightarrow>
                  if of_char (CHR ''@'') \<in> set sender_raw then
                    (if of_char (CHR '' '') \<in> set sender_raw then split_first sender_raw
                     else Some sender_raw)
                  else Some mailer_daemon))"

text \<open>
  The date, lines 96 to 112: \<open>now\<close> is what \<^verbatim>\<open>datetime.now()\<close> returns on line 96.
\<close>

definition extract_date :: "unicode_db \<Rightarrow> datetime \<Rightarrow> ustr \<Rightarrow> string" where
  "extract_date U now headers =
     (case field_search (asc ''date:'') True headers of
        None \<Rightarrow> strftime now
      | Some g \<Rightarrow>
          let date_str = ustrip g
          in (case try_formats U date_formats (take 31 date_str) of
                Some dt \<Rightarrow> strftime dt
              | None \<Rightarrow> strftime now))"

text \<open>The body of the \<^verbatim>\<open>try\<close> of \<^verbatim>\<open>get_from_line\<close>; \<open>None\<close> when it raises.\<close>

definition from_line_try :: "unicode_db \<Rightarrow> datetime \<Rightarrow> bytes \<Rightarrow> ustr option" where
  "from_line_try U now email_content =
     (let headers = decode_utf8_replace (header_section email_content)
      in (case extract_sender headers of
            None \<Rightarrow> None
          | Some sender \<Rightarrow>
              Some (asc ''From '' @ sender @ asc '' '' @ asc (extract_date U now headers) @ [10])))"

text \<open>
  \<^verbatim>\<open>get_from_line\<close>: \<open>now\<close> is the clock as read on line 96, \<open>now_exc\<close> as read by the
  handler on line 117.
\<close>

definition get_from_line :: "unicode_db \<Rightarrow> datetime \<Rightarrow> datetime \<Rightarrow> bytes \<Rightarrow> ustr" where
  "get_from_line U now now_exc email_content =
     (case from_line_try U now email_content of
        Some line \<Rightarrow> line
      | None \<Rightarrow> asc ''From MAILER-DAEMON '' @ asc (strftime now_exc) @ [10])"

section \<open>Files and folders\<close>

text \<open>
  The source tree: a file holds its bytes (\<open>None\<close> when it cannot be read), a directory
  lists its entries by name in the order in which the system returns them. The tree has
  no symbolic links and does not change while the program runs.
\<close>

datatype fsnode = File "bytes option" | Dir "(ustr \<times> fsnode) list"

definition slash :: nat where
  "slash = of_char (CHR ''/'')"

text \<open>\<^verbatim>\<open>os.path.join(a, b)\<close>.\<close>

definition path_join :: "ustr \<Rightarrow> ustr \<Rightarrow> ustr" where
  "path_join a b =
     (if b \<noteq> [] \<and> hd b = slash then b
      else if a = [] \<or> last a = slash then a @ b
      else a @ [slash] @ b)"

fun dir_names :: "(ustr \<times> fsnode) list \<Rightarrow> ustr list" where
  "dir_names [] = []"
| "dir_names ((n, Dir es) # rest) = n # dir_names rest"
| "dir_names ((n, File c) # rest) = dir_names rest"

fun file_names :: "(ustr \<times> fsnode) list \<Rightarrow> ustr list" where
  "file_names [] = []"
| "file_names ((n, Dir es) # rest) = file_names rest"
| "file_names ((n, File c) # rest) = n # file_names rest"

text \<open>
  \<^verbatim>\<open>os.walk(top)\<close> on the tree below \<open>top\<close>: for each directory, from the top down, its
  path, the names of its subdirectories and the names of its files. Nothing is yielded
  for a path that is no directory.
\<close>

fun walk :: "ustr \<Rightarrow> fsnode \<Rightarrow> (ustr \<times> ustr list \<times> ustr list) list"
  and walk_entries :: "ustr \<Rightarrow> (ustr \<times> fsnode) list \<Rightarrow> (ustr \<times> ustr list \<times> ustr list) list" where
  "walk dir_path (File c) = []"
| "walk dir_path (Dir es) = (dir_path, dir_names es, file_names es) # walk_entries dir_path es"
| "walk_entries dir_path [] = []"
| "walk_entries dir_path ((n, t) # es) = walk (path_join dir_path n) t @ walk_entries dir_path es"

text \<open>
  The node that a path names: the one that the walk from the root reaches under that
  path.
\<close>

fun find_node :: "ustr \<Rightarrow> fsnode \<Rightarrow> ustr \<Rightarrow> fsnode option"
  and find_in :: "ustr \<Rightarrow> (ustr \<times> fsnode) list \<Rightarrow> ustr \<Rightarrow> fsnode option" where
  "find_node dir_path (File c) p = (if dir_path = p then Some (File c) else None)"
| "find_node dir_path (Dir es) p = (if dir_path = p then Some (Dir es) else find_in dir_path es p)"
| "find_in dir_path [] p = None"
| "find_in dir_path ((n, t) # es) p =
     (case find_node (path_join dir_path n) t p of
        Some x \<Rightarrow> Some x
      | None \<Rightarrow> find_in dir_path es p)"

record filesystem =
  root_path :: ustr
  root_node :: fsnode

definition os_walk :: "filesystem \<Rightarrow> ustr \<Rightarrow> (ustr \<times> ustr list \<times> ustr list) list" where
  "os_walk fs p =
     (case find_node (root_path fs) (root_node fs) p of
        Some t \<Rightarrow> walk p t
      | None \<Rightarrow> [])"

text \<open>
  \<^verbatim>\<open>open(path, 'rb').read()\<close>; \<open>None\<close> when the call raises: no such file, a directory,
  or a file that cannot be read.
\<close>

definition read_file :: "filesystem \<Rightarrow> ustr \<Rightarrow> bytes option" where
  "read_file fs p =
     (case find_node (root_path fs) (root_node fs) p of
        Some (File c) \<Rightarrow> c
      | _ \<Rightarrow> None)"

text \<open>
  \<^verbatim>\<open>parse_emlx\<close>: every exception, that of a failed read included, is caught and gives
  \<open>None\<close>.
\<close>

definition parse_emlx :: "filesystem \<Rightarrow> ustr \<Rightarrow> bytes option" where
  "parse_emlx fs emlx_path =
     (case read_file fs emlx_path of
        None \<Rightarrow> None
      | Some content \<Rightarrow> parse_emlx_bytes content)"

text \<open>
  \<^verbatim>\<open>find_emlx_files\<close>. Python orders strings by their code points, as the
  lexicographic order on lists of numbers does.
\<close>

definition is_emlx :: "ustr \<Rightarrow> bool" where
  "is_emlx file = (endswith file (asc ''.emlx'') \<or> endswith file (asc ''.partial.emlx''))"

definition find_emlx_files :: "filesystem \<Rightarrow> ustr \<Rightarrow> ustr list" where
  "find_emlx_files fs directory =
     sort (concat (map (\<lambda>(root, dirs, files). map (path_join root) (filter is_emlx files))
                       (os_walk fs directory)))"

section \<open>Converting a folder\<close>

text \<open>
  The wall clock is read by \<^verbatim>\<open>datetime.now()\<close>; \<open>clk k\<close> is what the \<open>k\<close>-th reading of
  a run returns.
\<close>

type_synonym clock = "nat \<Rightarrow> datetime"

datatype error = UnicodeEncodeError

text \<open>
  The loop of \<^verbatim>\<open>convert_folder\<close> over the sorted paths. The state is what has been
  written to the output file, the count, and the number of clock readings so far.
  \<^verbatim>\<open>if email_content:\<close> is false for \<^verbatim>\<open>None\<close> and for the empty byte string. An exception
  of \<^verbatim>\<open>from_line.encode('utf-8')\<close> is caught nowhere and ends the run.
\<close>

fun convert_loop ::
  "unicode_db \<Rightarrow> filesystem \<Rightarrow> clock \<Rightarrow> ustr list \<Rightarrow> bytes \<times> nat \<times> nat \<Rightarrow>
   error + bytes \<times> nat \<times> nat" where
  "convert_loop U fs clk [] st = Inr st"
| "convert_loop U fs clk (emlx_path # rest) (written, count, t) =
     (case parse_emlx fs emlx_path of
        None \<Rightarrow> convert_loop U fs clk rest (written, count, t)
      | Some email_content \<Rightarrow>
          if email_content = [] then convert_loop U fs clk rest (written, count, t)
          else
            let from_line = get_from_line U (clk t) (clk (t + 1)) email_content;
                t' = (if from_line_try U (clk t) email_content = None then t + 2 else t + 1);
                escaped_content = escape_from_lines email_content
            in (case encode_utf8 from_line of
                  None \<Rightarrow> Inl UnicodeEncodeError
                | Some line \<Rightarrow>
                    convert_loop U fs clk rest
                      (written @ line @ escaped_content @
                         (if endswith escaped_content [NL] then [] else [NL]) @ [NL],
                       count + 1, t')))"

text \<open>
  The output directory lies outside the source tree and holds plain files; it is a map
  from file names to contents. \<^verbatim>\<open>convert_folder\<close> returns the count; here it also
  returns the output directory and the number of clock readings as it leaves them.
  \<^verbatim>\<open>open(mbox_path, 'wb')\<close> creates the file or empties it.
\<close>

type_synonym outdir = "ustr \<rightharpoonup> bytes"

definition convert_folder ::
  "unicode_db \<Rightarrow> filesystem \<Rightarrow> clock \<Rightarrow> ustr \<Rightarrow> ustr \<Rightarrow> outdir \<Rightarrow> nat \<Rightarrow>
   error + nat \<times> outdir \<times> nat" where
  "convert_folder U fs clk source_dir mbox_name out t =
     (let emlx_files = find_emlx_files fs source_dir
      in if emlx_files = [] then Inr (0, out, t)
         else (case convert_loop U fs clk emlx_files ([], 0, t) of
                 Inl e \<Rightarrow> Inl e
               | Inr (written, count, t') \<Rightarrow> Inr (count, out(mbox_name \<mapsto> written), t')))"

section \<open>Converting an account\<close>

text \<open>
  \<^verbatim>\<open>s.replace(old, new)\<close> for a non-empty \<open>old\<close>: every occurrence, from left to right.
\<close>

fun py_replace :: "ustr \<Rightarrow> ustr \<Rightarrow> ustr \<Rightarrow> ustr" where
  "py_replace old new [] = []"
| "py_replace old new (c # cs) =
     (if old \<noteq> [] \<and> startswith (c # cs) old
      then new @ py_replace old new (drop (length old - 1) cs)
      else c # py_replace old new cs)"

text \<open>\<^verbatim>\<open>re.sub(r'[^\w\-_]', '_', s)\<close>.\<close>

definition safe_chars :: "unicode_db \<Rightarrow> ustr \<Rightarrow> ustr" where
  "safe_chars U s =
     map (\<lambda>c. if is_word U c \<or> c = of_char (CHR ''-'') \<or> c = of_char (CHR ''_'') then c
               else of_char (CHR ''_'')) s"

definition no_brackets :: "ustr \<Rightarrow> ustr" where
  "no_brackets s = filter (\<lambda>c. c \<noteq> of_char (CHR ''['') \<and> c \<noteq> of_char (CHR '']'')) s"

text \<open>
  \<^verbatim>\<open>os.path.relpath(folder_path, source_dir)\<close> for a path that the walk of
  \<open>source_dir\<close> has produced: what follows \<open>source_dir\<close> and its separator.
\<close>

definition relpath :: "ustr \<Rightarrow> ustr \<Rightarrow> ustr" where
  "relpath folder_path source_dir = drop (length (path_join source_dir [])) folder_path"

text \<open>The name of the output file without its suffix, lines 216 to 225.\<close>

definition output_name :: "unicode_db \<Rightarrow> ustr \<Rightarrow> ustr \<Rightarrow> ustr \<Rightarrow> ustr" where
  "output_name U source_dir folder_path folder_name =
     (let clean_name =
            safe_chars U (map (\<lambda>c. if c = of_char (CHR '' '') then of_char (CHR ''_'') else c)
                              (no_brackets folder_name));
          rel_path = relpath folder_path source_dir
      in if slash \<in> set rel_path then
           (let parent = safe_chars U (no_brackets
                           (py_replace (asc ''.mbox'') [] (takeWhile (\<lambda>c. c \<noteq> slash) rel_path)))
            in parent @ asc ''_'' @ clean_name)
         else clean_name)"

text \<open>The folders that \<^verbatim>\<open>convert_account\<close> collects: path and name without suffix.\<close>

definition mbox_folders :: "filesystem \<Rightarrow> ustr \<Rightarrow> (ustr \<times> ustr) list" where
  "mbox_folders fs source_dir =
     concat (map (\<lambda>(root, dirs, files).
                    map (\<lambda>d. (path_join root d, take (length d - 5) d))
                        (filter (\<lambda>d. endswith d (asc ''.mbox'')) dirs))
                 (os_walk fs source_dir))"

text \<open>
  The loop of \<^verbatim>\<open>convert_account\<close> over the folders. The state is the output directory,
  the dictionary of counts and the number of clock readings.
\<close>

fun account_loop ::
  "unicode_db \<Rightarrow> filesystem \<Rightarrow> clock \<Rightarrow> ustr \<Rightarrow> (ustr \<times> ustr) list \<Rightarrow>
   outdir \<times> (ustr \<rightharpoonup> nat) \<times> nat \<Rightarrow> error + outdir \<times> (ustr \<rightharpoonup> nat) \<times> nat" where
  "account_loop U fs clk source_dir [] st = Inr st"
| "account_loop U fs clk source_dir ((folder_path, folder_name) # rest) (out, email_counts, t) =
     (let clean_name = output_name U source_dir folder_path folder_name;
          mbox_name = clean_name @ asc ''.mbox''
      in (case convert_folder U fs clk folder_path mbox_name out t of
            Inl e \<Rightarrow> Inl e
          | Inr (count, out', t') \<Rightarrow>
              if count > 0
              then account_loop U fs clk source_dir rest
                     (out', email_counts(clean_name \<mapsto> count), t')
              else account_loop U fs clk source_dir rest
                     (out'(mbox_name := None), email_counts, t')))"

definition convert_account ::
  "unicode_db \<Rightarrow> filesystem \<Rightarrow> clock \<Rightarrow> ustr \<Rightarrow> outdir \<Rightarrow> nat \<Rightarrow>
   error + (ustr \<rightharpoonup> nat) \<times> outdir \<times> nat" where
  "convert_account U fs clk source_dir out t =
     (case account_loop U fs clk source_dir (mbox_folders fs source_dir) (out, Map.empty, t) of
        Inl e \<Rightarrow> Inl e
      | Inr (out', email_counts, t') \<Rightarrow> Inr (email_counts, out', t'))"

section \<open>Auxiliary notions used in the proofs\<close>

text \<open>A decimal digit, with the facts about it that the decoder's steps ask for.\<close>

definition plain_digit :: "char \<Rightarrow> bool" where
  "plain_digit c = (is_digit c \<and> c \<noteq> NL \<and> \<not> ascii_space c \<and> c \<noteq> CHR ''_'' \<and> c \<noteq> CHR ''-''
      \<and> c \<noteq> CHR ''+'' \<and> (of_char c :: nat) < 128)"


text \<open>What the escaping does to one line, in the words of the specification.\<close>

definition escape_line :: "bytes \<Rightarrow> bytes" where
  "escape_line l = (if startswith l ''From '' then ''>'' @ l else l)"


text \<open>Inputs for the examples: character tables that know no digit and no letter outside
  ASCII, a clock reading, and two small source trees.\<close>

definition example_db :: unicode_db where
  "example_db = \<lparr>decimal_value = (\<lambda>c. None), alphanumeric = (\<lambda>c. False)\<rparr>"

definition example_now :: datetime where
  "example_now = \<lparr>year = 2026, month = 11, day = 4, hour = 9, minute = 5, second = 7\<rparr>"

definition example_later :: datetime where
  "example_later = \<lparr>year = 2026, month = 11, day = 4, hour = 9, minute = 5, second = 8\<rparr>"

definition example_fs :: filesystem where
  "example_fs =
     \<lparr>root_path = asc ''/m'',
      root_node = Dir
        [(asc ''In.mbox'', Dir
           [(asc ''1.emlx'', File (Some ''junk'')),
            (asc ''2.emlx'', File (Some (''0'' @ [NL] @ ''<plist/>''))),
            (asc ''3.emlx'', File (Some (''2'' @ [NL] @ ''hi<plist/>'')))])]\<rparr>"

definition collide_fs :: filesystem where
  "collide_fs =
     \<lparr>root_path = asc ''/m'',
      root_node = Dir
        [(asc ''a b.mbox'', Dir []),
         (asc ''a_b.mbox'', Dir [(asc ''1.emlx'', File (Some (''2'' @ [NL] @ ''hi'')))])]\<rparr>"

text \<open>A Unicode scalar value: a code point that is no surrogate.\<close>

definition scalar :: "nat \<Rightarrow> bool" where
  "scalar c = (c < 0xD800 \<or> (0xE000 \<le> c \<and> c < 0x110000))"

text \<open>
  The fixed layout of the time in an envelope line: a weekday name, a month name, a day
  of two digits, \<open>HH:MM:SS\<close> and a year of four digits, with single blanks between
  them.
\<close>

definition is_timestamp :: "string \<Rightarrow> bool" where
  "is_timestamp s =
     (length s = 24 \<and> take 3 s \<in> set day_names \<and> take 3 (drop 4 s) \<in> set month_names \<and>
      list_all is_digit (map (\<lambda>i. s ! i) [8, 9, 11, 12, 14, 15, 17, 18, 20, 21, 22, 23]) \<and>
      map (\<lambda>i. s ! i) [3, 7, 10, 13, 16, 19] = '' '' @ '' '' @ '' '' @ '':'' @ '':'' @ '' '')"

definition ascii_str :: "string \<Rightarrow> bool" where
  "ascii_str s = list_all (\<lambda>c. (of_char c :: nat) < 128 \<and> c \<noteq> NL) s"

text \<open>
  The sender in the words of the specification. \<open>first_bracketed\<close> is the first address
  in angle brackets: the text after the leftmost \<open><\<close> that is followed by at least one
  character other than \<open>>\<close> and then by \<open>>\<close>. \<open>first_token\<close> is the first run of characters
  that are no whitespace. \<open>spec_sender\<close> takes the value of the \<open>From\<close> field, if there
  is one.
\<close>

fun first_bracketed :: "ustr \<Rightarrow> ustr option" where
  "first_bracketed [] = None"
| "first_bracketed (c # cs) =
     (if c = of_char (CHR ''<'') \<and> takeWhile (\<lambda>x. x \<noteq> of_char (CHR ''>'')) cs \<noteq> [] \<and>
         dropWhile (\<lambda>x. x \<noteq> of_char (CHR ''>'')) cs \<noteq> []
      then Some (takeWhile (\<lambda>x. x \<noteq> of_char (CHR ''>'')) cs)
      else first_bracketed cs)"

definition first_token :: "ustr \<Rightarrow> ustr" where
  "first_token s = takeWhile (\<lambda>x. \<not> uspace x) (dropWhile uspace s)"

definition spec_sender :: "ustr option \<Rightarrow> ustr" where
  "spec_sender v =
     (case v of
        None \<Rightarrow> asc ''MAILER-DAEMON''
      | Some raw \<Rightarrow>
          (case first_bracketed raw of
             Some a \<Rightarrow> a
           | None \<Rightarrow>
               if of_char (CHR ''@'') \<in> set raw
               then (if of_char (CHR '' '') \<in> set raw then first_token raw else raw)
               else asc ''MAILER-DAEMON''))"

text \<open>A message whose \<open>Date\<close> field is found and parses under one of the formats.\<close>

definition dated :: "unicode_db \<Rightarrow> bytes \<Rightarrow> bool" where
  "dated U content =
     (case field_search (asc ''date:'') True (decode_utf8_replace (header_section content)) of
        None \<Rightarrow> False
      | Some g \<Rightarrow> try_formats U date_formats (take 31 (ustrip g)) \<noteq> None)"

text \<open>The header block of a message as the field scans see it.\<close>

definition headers_of :: "bytes \<Rightarrow> ustr" where
  "headers_of content = decode_utf8_replace (header_section content)"

text \<open>A message with a date for the examples, written as those of the repository's
  tests.\<close>

definition dated_msg :: bytes where
  "dated_msg = ''From: sender@example.com'' @ [CHR 0x0D, NL] @
     ''Date: Mon, 01 Jan 2024 12:00:00 +0000'' @ [CHR 0x0D, NL, CHR 0x0D, NL] @ ''Body''"

definition dated_fs :: filesystem where
  "dated_fs =
     \<lparr>root_path = asc ''/d'',
      root_node = Dir
        [(asc ''In.mbox'', Dir
           [(asc ''1.emlx'', File (Some (''71'' @ [NL] @ dated_msg @ ''<plist/>'')))])]\<rparr>"

definition elide_fs :: filesystem where
  "elide_fs =
     \<lparr>root_path = asc ''/m'',
      root_node = Dir
        [(asc ''Junk.mbox'', Dir [(asc ''1.emlx'', File (Some ''junk''))]),
         (asc ''In.mbox'', Dir [(asc ''1.emlx'', File (Some (''2'' @ [NL] @ ''hi'')))])]\<rparr>"

text \<open>
  The header block in the words of the specification: the lines of the message before
  its first blank line, or the whole message when it holds no blank line. A blank line
  is a line, ended by its line terminator, that is empty or holds a carriage return
  only. \<open>blank_line bol s\<close> says that a blank line begins somewhere in \<open>s\<close>, where
  \<open>bol\<close> tells whether \<open>s\<close> begins at the start of a line. \<open>header_block content hdr\<close>
  says that \<open>hdr\<close> is the header block of \<open>content\<close>: either \<open>content\<close> holds no blank
  line and \<open>hdr\<close> is all of it, or \<open>hdr\<close> is made of lines that are not blank and is
  followed in \<open>content\<close> by the terminator of its last line and an empty line.
\<close>

definition CR :: char where
  "CR = CHR 0x0D"

fun blank_line :: "bool \<Rightarrow> bytes \<Rightarrow> bool" where
  "blank_line bol [] = False"
| "blank_line bol (c # cs) =
     ((bol \<and> (c = NL \<or> (c = CR \<and> take 1 cs = [NL]))) \<or> blank_line (c = NL) cs)"

definition header_block :: "bytes \<Rightarrow> bytes \<Rightarrow> bool" where
  "header_block content hdr =
     ((content = hdr \<and> \<not> blank_line True hdr) \<or>
      (take (length hdr + 2) content = hdr @ [NL, NL] \<and> \<not> blank_line True (hdr @ [NL])))"

text \<open>
  A header field in the words of the specification. The lines of a text are the pieces
  between its line terminators. A line starts with a field name, given in lower case
  with its colon, when its first characters are those of the name in either case. The
  field is the first such line of the decoded header block, and its value is the rest of
  that line without surrounding whitespace.
\<close>

fun ulines :: "ustr \<Rightarrow> ustr list" where
  "ulines [] = [[]]"
| "ulines (c # cs) =
     (if c = 10 then [] # ulines cs
      else (case ulines cs of
              [] \<Rightarrow> [[c]]
            | l # ls \<Rightarrow> (c # l) # ls))"

definition ascii_lower :: "nat \<Rightarrow> nat" where
  "ascii_lower c = (if 65 \<le> c \<and> c \<le> 90 then c + 32 else c)"

definition starts_ci :: "ustr \<Rightarrow> ustr \<Rightarrow> bool" where
  "starts_ci name l = (map ascii_lower (take (length name) l) = name)"

fun first_field :: "ustr \<Rightarrow> ustr list \<Rightarrow> ustr option" where
  "first_field name [] = None"
| "first_field name (l # ls) =
     (if starts_ci name l then Some (drop (length name) l) else first_field name ls)"

definition field_value :: "ustr \<Rightarrow> bytes \<Rightarrow> ustr option" where
  "field_value name hdr =
     map_option ustrip (first_field name (ulines (decode_utf8_replace hdr)))"
section \<open>Properties of the decoder\<close>

lemma digit_char_props:
  assumes "d < 10"
  shows "is_digit (char_of (48 + d))" "digit_val (char_of (48 + d)) = int d"
    "char_of (48 + d) \<noteq> NL" "\<not> ascii_space (char_of (48 + d))"
    "char_of (48 + d) \<noteq> CHR ''_''" "char_of (48 + d) \<noteq> CHR ''-''" "char_of (48 + d) \<noteq> CHR ''+''"
    "(of_char (char_of (48 + d) :: char) :: nat) < 128"
proof -
  have v: "(of_char (char_of (48 + d) :: char) :: nat) = 48 + d"
    using assms by (simp add: of_char_of)
  show "is_digit (char_of (48 + d))" using assms by (simp add: is_digit_def v)
  show "digit_val (char_of (48 + d)) = int d" by (simp only: digit_val_def v)
  have ne: "\<And>c::char. (of_char c :: nat) \<noteq> 48 + d \<Longrightarrow> char_of (48 + d) \<noteq> c"
    using v by auto
  show "char_of (48 + d) \<noteq> NL" using assms by (intro ne) (simp add: NL_def)
  show "\<not> ascii_space (char_of (48 + d))" using assms by (simp add: ascii_space_def v)
  show "char_of (48 + d) \<noteq> CHR ''_''" using assms by (intro ne) simp
  show "char_of (48 + d) \<noteq> CHR ''-''" using assms by (intro ne) simp
  show "char_of (48 + d) \<noteq> CHR ''+''" using assms by (intro ne) simp
  show "(of_char (char_of (48 + d) :: char) :: nat) < 128" using assms by (simp add: v)
qed

lemma decimal_plain: "list_all plain_digit (decimal n) \<and> decimal n \<noteq> []"
proof (induction n rule: decimal.induct)
  case (1 n)
  show ?case
  proof (cases "n < 10")
    case True
    then have "plain_digit (char_of (48 + n))"
      unfolding plain_digit_def using digit_char_props[of n] by blast
    moreover have "decimal n = [char_of (48 + n)]"
      using True by (subst decimal.simps) simp
    ultimately show ?thesis by simp
  next
    case False
    have "n mod 10 < 10" by simp
    then have "plain_digit (char_of (48 + n mod 10))"
      unfolding plain_digit_def using digit_char_props[of "n mod 10"] by blast
    moreover have "decimal n = decimal (n div 10) @ [char_of (48 + n mod 10)]"
      using False by (subst decimal.simps) simp
    ultimately show ?thesis using False 1 by simp
  qed
qed

lemma int_digits_plain:
  "list_all plain_digit ds \<Longrightarrow> ds \<noteq> [] \<or> (prev \<noteq> None \<and> prev \<noteq> Some (CHR ''_'')) \<Longrightarrow>
   int_digits prev acc ds = Some (foldl (\<lambda>a c. 10 * a + digit_val c) acc ds)"
proof (induction ds arbitrary: prev acc)
  case Nil
  then show ?case by simp
next
  case (Cons c cs)
  from Cons.prems(1) have pc: "plain_digit c" and cs: "list_all plain_digit cs"
    by simp_all
  from pc have c: "is_digit c" "c \<noteq> CHR ''_''"
    by (simp_all add: plain_digit_def)
  have "int_digits (Some c) (10 * acc + digit_val c) cs
        = Some (foldl (\<lambda>a c. 10 * a + digit_val c) (10 * acc + digit_val c) cs)"
    using c by (intro Cons.IH[OF cs]) simp
  then show ?case using c by simp
qed

lemma decimal_value: "foldl (\<lambda>a c. 10 * a + digit_val c) 0 (decimal n) = int n"
proof (induction n rule: decimal.induct)
  case (1 n)
  show ?case
  proof (cases "n < 10")
    case True
    then show ?thesis by (subst decimal.simps) (simp add: digit_char_props)
  next
    case False
    have "n mod 10 < 10" by simp
    then have "digit_val (char_of (48 + n mod 10)) = int (n mod 10)"
      by (rule digit_char_props)
    with False 1 show ?thesis
      by (subst decimal.simps) (simp add: zmod_int zdiv_int)
  qed
qed

lemma py_strip_id:
  assumes "s \<noteq> []" "\<not> ascii_space (hd s)" "\<not> ascii_space (last s)"
  shows "py_strip s = s"
proof -
  have 1: "dropWhile ascii_space s = s"
    using assms by (cases s) simp_all
  have "rev s \<noteq> []" "\<not> ascii_space (hd (rev s))"
    using assms by (simp_all add: hd_rev)
  then have 2: "dropWhile ascii_space (rev s) = rev s"
    by (cases "rev s") simp_all
  show ?thesis by (simp add: py_strip_def 1 2)
qed

lemma py_int_decimal: "py_int (py_strip (decimal n)) = Some (int n)"
proof -
  let ?d = "decimal n"
  have pl: "list_all plain_digit ?d" and ne: "?d \<noteq> []"
    using decimal_plain by blast+
  have h: "plain_digit (hd ?d)" and l: "plain_digit (last ?d)"
    using pl ne by (simp_all add: list_all_iff)
  have st: "py_strip ?d = ?d"
    using ne h l by (intro py_strip_id) (simp_all add: plain_digit_def)
  obtain c r where cr: "?d = c # r" using ne by (cases ?d) auto
  have c: "c \<noteq> CHR ''-''" "c \<noteq> CHR ''+''" using h cr by (simp_all add: plain_digit_def)
  have "int_digits None 0 ?d = Some (int n)"
    using int_digits_plain[OF pl, of None 0] ne decimal_value by simp
  then have "int_digits None 0 (c # r) = Some (int n)"
    by (simp only: cr)
  then have "py_int (c # r) = Some (int n)"
    unfolding py_int_def st[unfolded cr] using c by (simp del: int_digits.simps)
  then show ?thesis
    by (simp only: st) (simp only: cr)
qed

lemma find_nl_append:
  "NL \<notin> set ds \<Longrightarrow> find_nl (ds @ NL # rest) = Some (length ds)"
  by (induction ds) auto

lemma find_nl_Some:
  "find_nl c = Some i \<Longrightarrow> i < length c \<and> c ! i = NL \<and> NL \<notin> set (take i c)"
proof (induction c arbitrary: i)
  case Nil then show ?case by simp
next
  case (Cons a c)
  show ?case
  proof (cases "a = NL")
    case True with Cons.prems show ?thesis by simp
  next
    case False
    with Cons.prems obtain j where j: "find_nl c = Some j" "i = Suc j" by auto
    from Cons.IH[OF j(1)] False j(2) show ?thesis by simp
  qed
qed

lemma find_nl_None: "find_nl c = None \<longleftrightarrow> NL \<notin> set c"
  by (induction c) auto

lemma py_slice_tail:
  "i < length xs \<Longrightarrow> py_slice xs (int i + 1) (int i + 1 + int k) = take k (drop (Suc i) xs)"
  by (auto simp: py_slice_def Let_def min_def nat_diff_distrib nat_add_distrib)

text \<open>
  Claim C1. A container made of the decimal rendering of the length of \<open>content\<close>, a line
  terminator, \<open>content\<close> and any trailer decodes to exactly \<open>content\<close>, whatever the
  trailer holds.
\<close>

theorem decode_roundtrip:
  "parse_emlx_bytes (decimal (length content) @ NL # content @ trailer) = Some content"
proof -
  let ?d = "decimal (length content)"
  let ?raw = "?d @ NL # content @ trailer"
  have pl: "list_all plain_digit ?d" using decimal_plain by blast
  then have nonl: "NL \<notin> set ?d" by (auto simp: list_all_iff plain_digit_def)
  have f: "find_nl ?raw = Some (length ?d)" using nonl by (rule find_nl_append)
  have asc: "decode_ascii ?d = Some ?d"
    using pl by (auto simp: decode_ascii_def list_all_iff plain_digit_def)
  have dc: "declared_count ?raw (length ?d) = Some (int (length content))"
    by (simp add: declared_count_def asc py_int_decimal)
  have sl: "py_slice ?raw (int (length ?d) + 1) (int (length ?d) + 1 + int (length content)) = content"
    by (subst py_slice_tail) simp_all
  show ?thesis
    by (simp add: parse_emlx_bytes_def f dc sl Let_def)
qed

text \<open>
  Claim C7. Take any container \<open>first @ NL # rest\<close> whose first line \<open>first\<close> holds no
  line terminator, so that the terminator written after it is the first one of the
  container. When \<open>first\<close> is no ASCII integer (it holds a byte above 0x7F, or the integer
  conversion of its text fails), decoding succeeds and returns \<open>rest\<close>: every byte after the
  first line terminator, and nothing else.
\<close>

theorem decode_fallback:
  assumes "NL \<notin> set first"
    and "decode_ascii first = None \<or> py_int (py_strip first) = None"
  shows "parse_emlx_bytes (first @ NL # rest) = Some rest"
proof -
  let ?raw = "first @ NL # rest"
  let ?i = "length first"
  have f: "find_nl ?raw = Some ?i" using assms(1) by (rule find_nl_append)
  have "decode_ascii first = None \<or> decode_ascii first = Some first"
    by (simp add: decode_ascii_def)
  then have d: "declared_count ?raw ?i = None"
    using assms(2) by (auto simp: declared_count_def)
  have "py_slice ?raw (int ?i + 1) (int ?i + 1 + int (length rest)) = take (length rest) (drop (Suc ?i) ?raw)"
    by (rule py_slice_tail) simp
  moreover have "int (length ?raw) - int ?i - 1 = int (length rest)" by simp
  ultimately have "py_slice ?raw (int ?i + 1) (int ?i + 1 + (int (length ?raw) - int ?i - 1)) = rest"
    by simp
  then show ?thesis
    by (simp add: parse_emlx_bytes_def f d Let_def)
qed

theorem decode_fallback_witness:
  "NL \<notin> set ''12a4'' \<and> py_int (py_strip ''12a4'') = None \<and>
   parse_emlx_bytes (''12a4'' @ NL # ''hello<plist/>'') = Some ''hello<plist/>''"
proof -
  have n: "NL \<notin> set ''12a4''"
    by (simp add: NL_def)
  have d: "py_int (py_strip ''12a4'') = None"
    by (simp add: py_int_def py_strip_def ascii_space_def is_digit_def)
  show ?thesis
    using decode_fallback [OF n disjI2 [OF d], of "''hello<plist/>''"] n d by simp
qed

section \<open>Properties of the escaping\<close>

lemma split_nl_ne: "split_nl s \<noteq> []"
  by (induction s) (auto split: list.splits)

lemma split_nl_no_nl: "l \<in> set (split_nl s) \<Longrightarrow> NL \<notin> set l"
  by (induction s arbitrary: l) (auto split: list.splits if_splits)

lemma join_split: "join_nl (split_nl s) = s"
proof (induction s)
  case Nil then show ?case by simp
next
  case (Cons c cs)
  obtain l ls where ls: "split_nl cs = l # ls"
    using split_nl_ne[of cs] by (cases "split_nl cs") auto
  show ?case
  proof (cases "c = NL")
    case True
    with Cons ls show ?thesis by simp
  next
    case False
    have "join_nl ((c # l) # ls) = c # join_nl (l # ls)"
      by (cases ls) simp_all
    with False Cons ls show ?thesis by simp
  qed
qed

lemma split_join:
  "ls \<noteq> [] \<Longrightarrow> \<forall>l \<in> set ls. NL \<notin> set l \<Longrightarrow> split_nl (join_nl ls) = ls"
proof (induction ls rule: join_nl.induct)
  case 1 then show ?case by simp
next
  case (2 l)
  then have "NL \<notin> set l" by simp
  then have "split_nl l = [l]"
    by (induction l) auto
  then show ?case by simp
next
  case (3 l m ls)
  then have IH: "split_nl (join_nl (m # ls)) = m # ls" by simp
  from 3 have "NL \<notin> set l" by simp
  then have "split_nl (l @ NL # join_nl (m # ls)) = l # m # ls"
    using IH by (induction l) auto
  then show ?case by simp
qed

lemma escaped_line:
  assumes "startswith l ''From ''"
  shows "''>From '' @ drop 5 l = ''>'' @ l"
proof -
  have "length ''From '' = 5" by simp
  then have "take 5 l = ''From ''"
    using assms unfolding startswith_def by metis
  then have "''From '' @ drop 5 l = l"
    by (metis append_take_drop_id)
  then show ?thesis by simp
qed

lemma escape_loop_map: "escape_loop ls acc = acc @ map escape_line ls"
proof (induction ls arbitrary: acc)
  case Nil
  then show ?case by simp
next
  case (Cons l ls)
  show ?case
  proof (cases "startswith l ''From ''")
    case True
    then show ?thesis
      using Cons[of "acc @ [''>From '' @ drop 5 l]"] escaped_line[OF True]
      by (simp add: escape_line_def)
  next
    case False
    then show ?thesis
      using Cons[of "acc @ [l]"] by (simp add: escape_line_def)
  qed
qed

lemma escape_line_no_nl: "NL \<notin> set l \<Longrightarrow> NL \<notin> set (escape_line l)"
  by (simp add: escape_line_def NL_def)

lemma escape_line_not_from: "\<not> startswith (escape_line l) ''From ''"
  by (cases l) (auto simp: escape_line_def startswith_def)

lemma split_escape: "split_nl (escape_from_lines c) = map escape_line (split_nl c)"
proof -
  have "escape_from_lines c = join_nl (map escape_line (split_nl c))"
    by (simp add: escape_from_lines_def escape_loop_map)
  moreover have "map escape_line (split_nl c) \<noteq> []"
    using split_nl_ne by simp
  moreover have "\<forall>l \<in> set (map escape_line (split_nl c)). NL \<notin> set l"
    using split_nl_no_nl escape_line_no_nl by auto
  ultimately show ?thesis
    using split_join by simp
qed

lemma escape_line_idem: "escape_line (escape_line l) = escape_line l"
  using escape_line_not_from[of l] by (simp add: escape_line_def)

lemma escape_idem: "escape_from_lines (escape_from_lines c) = escape_from_lines c"
proof -
  have "escape_from_lines (escape_from_lines c)
        = join_nl (map escape_line (split_nl (escape_from_lines c)))"
    by (simp add: escape_from_lines_def escape_loop_map)
  also have "\<dots> = join_nl (map escape_line (split_nl c))"
    by (simp add: split_escape escape_line_idem comp_def)
  also have "\<dots> = escape_from_lines c"
    by (simp add: escape_from_lines_def escape_loop_map)
  finally show ?thesis .
qed

text \<open>
  Claim C2. The escaped content has the lines of the content, in order: a line that begins
  with the five bytes \<open>From \<close> has become \<open>>From \<close> followed by the rest of that line, that
  is the line with \<open>>\<close> put before it, and every other line is unchanged; the lines are
  joined by the line terminator they were split at. No line of the escaped content
  begins with \<open>From \<close>, so that escaping a second time yields no such line either, and in
  fact changes nothing.
\<close>

theorem escape_from_lines_lines:
  "length (split_nl (escape_from_lines c)) = length (split_nl c) \<and>
   (\<forall>i < length (split_nl c).
      (startswith (split_nl c ! i) ''From '' \<longrightarrow>
         split_nl (escape_from_lines c) ! i = ''>From '' @ drop 5 (split_nl c ! i) \<and>
         split_nl (escape_from_lines c) ! i = ''>'' @ split_nl c ! i) \<and>
      (\<not> startswith (split_nl c ! i) ''From '' \<longrightarrow>
         split_nl (escape_from_lines c) ! i = split_nl c ! i)) \<and>
   join_nl (split_nl c) = c \<and>
   escape_from_lines c = join_nl (split_nl (escape_from_lines c)) \<and>
   (\<forall>l \<in> set (split_nl (escape_from_lines c)). \<not> startswith l ''From '') \<and>
   (\<forall>l \<in> set (split_nl (escape_from_lines (escape_from_lines c))). \<not> startswith l ''From '') \<and>
   escape_from_lines (escape_from_lines c) = escape_from_lines c"
proof -
  have 1: "length (split_nl (escape_from_lines c)) = length (split_nl c)"
    by (simp add: split_escape)
  have 2: "\<forall>i < length (split_nl c).
      (startswith (split_nl c ! i) ''From '' \<longrightarrow>
         split_nl (escape_from_lines c) ! i = ''>From '' @ drop 5 (split_nl c ! i) \<and>
         split_nl (escape_from_lines c) ! i = ''>'' @ split_nl c ! i) \<and>
      (\<not> startswith (split_nl c ! i) ''From '' \<longrightarrow>
         split_nl (escape_from_lines c) ! i = split_nl c ! i)"
    using escaped_line by (simp add: split_escape escape_line_def)
  have 3: "\<forall>l \<in> set (split_nl (escape_from_lines c)). \<not> startswith l ''From ''"
    using escape_line_not_from by (auto simp: split_escape)
  have 4: "\<forall>l \<in> set (split_nl (escape_from_lines (escape_from_lines c))). \<not> startswith l ''From ''"
    using 3 by (simp only: escape_idem)
  have 5: "escape_from_lines c = join_nl (split_nl (escape_from_lines c))"
    by (simp only: join_split)
  show ?thesis
    by (intro conjI) (rule 1 2 3 4 5 join_split escape_idem)+
qed

theorem escape_from_lines_lines_witness:
  "split_nl (''a'' @ [NL] @ ''From b'' @ [NL] @ ''>From c'') = [''a'', ''From b'', ''>From c''] \<and>
   escape_from_lines (''a'' @ [NL] @ ''From b'' @ [NL] @ ''>From c'')
     = ''a'' @ [NL] @ ''>From b'' @ [NL] @ ''>From c'' \<and>
   split_nl (escape_from_lines (''a'' @ [NL] @ ''From b'' @ [NL] @ ''>From c''))
     = [''a'', ''>From b'', ''>From c''] \<and>
   split_nl (escape_from_lines (escape_from_lines (''a'' @ [NL] @ ''From b'' @ [NL] @ ''>From c'')))
     = [''a'', ''>From b'', ''>From c'']"
proof -
  have s: "split_nl (''a'' @ [NL] @ ''From b'' @ [NL] @ ''>From c'') = [''a'', ''From b'', ''>From c'']"
    by (simp add: NL_def)
  have e: "escape_from_lines (''a'' @ [NL] @ ''From b'' @ [NL] @ ''>From c'')
     = ''a'' @ [NL] @ ''>From b'' @ [NL] @ ''>From c''"
    unfolding escape_from_lines_def s by (simp add: startswith_def)
  have t: "split_nl (''a'' @ [NL] @ ''>From b'' @ [NL] @ ''>From c'') = [''a'', ''>From b'', ''>From c'']"
    by (simp add: NL_def)
  show ?thesis
    using escape_from_lines_lines [of "''a'' @ [NL] @ ''From b'' @ [NL] @ ''>From c''"] s e t
    by simp
qed

section \<open>Properties of the folder conversion\<close>

lemma asc_simps: "asc [] = []" "asc (c # cs) = of_char c # asc cs"
  by (simp_all add: asc_def)

lemmas fs_defs = read_file_def find_emlx_files_def os_walk_def path_join_def slash_def
  is_emlx_def endswith_def parse_emlx_def

lemma convert_loop_Cons:
  "convert_loop U fs clk (p # rest) st =
     (case convert_loop U fs clk [p] st of Inl e \<Rightarrow> Inl e | Inr st' \<Rightarrow> convert_loop U fs clk rest st')"
  by (cases st) (simp add: Let_def split: option.splits)

lemma convert_loop_append:
  "convert_loop U fs clk (ps @ qs) st =
     (case convert_loop U fs clk ps st of Inl e \<Rightarrow> Inl e | Inr st' \<Rightarrow> convert_loop U fs clk qs st')"
proof (induction ps arbitrary: st)
  case Nil
  then show ?case by simp
next
  case (Cons p ps)
  show ?case
    by (simp only: append_Cons convert_loop_Cons[of U fs clk p "ps @ qs"]
        convert_loop_Cons[of U fs clk p ps] Cons.IH split: sum.splits) 
       (simp split: sum.splits)
qed

lemma convert_loop_skip:
  "parse_emlx fs p = None \<or> parse_emlx fs p = Some [] \<Longrightarrow>
   convert_loop U fs clk (p # rest) st = convert_loop U fs clk rest st"
  by (cases st) auto

lemma convert_loop_filter:
  assumes "parse_emlx fs p = None \<or> parse_emlx fs p = Some []"
  shows "convert_loop U fs clk ps st = convert_loop U fs clk (filter (\<lambda>q. q \<noteq> p) ps) st"
proof (induction ps arbitrary: st)
  case Nil
  then show ?case by simp
next
  case (Cons q ps)
  show ?case
  proof (cases "q = p")
    case True
    then show ?thesis
      using convert_loop_skip[OF assms] Cons.IH by simp
  next
    case False
    then have "convert_loop U fs clk (filter (\<lambda>q. q \<noteq> p) (q # ps)) st
               = convert_loop U fs clk (q # filter (\<lambda>q. q \<noteq> p) ps) st"
      by simp
    also have "\<dots> = (case convert_loop U fs clk [q] st of Inl e \<Rightarrow> Inl e
                       | Inr st' \<Rightarrow> convert_loop U fs clk (filter (\<lambda>q. q \<noteq> p) ps) st')"
      by (rule convert_loop_Cons)
    also have "\<dots> = (case convert_loop U fs clk [q] st of Inl e \<Rightarrow> Inl e
                       | Inr st' \<Rightarrow> convert_loop U fs clk ps st')"
      using Cons.IH by (simp split: sum.splits)
    also have "\<dots> = convert_loop U fs clk (q # ps) st"
      by (rule convert_loop_Cons[symmetric])
    finally show ?thesis by simp
  qed
qed

lemma parse_no_nl: "NL \<notin> set raw \<Longrightarrow> parse_emlx_bytes raw = None"
  using find_nl_None[of raw] by (simp add: parse_emlx_bytes_def)

text \<open>
  Claim C8. A container whose bytes hold no line terminator decodes to the failure value
  \<open>None\<close>, not to an exception, and the folder conversion skips it: the loop goes on
  with the state unchanged (nothing written, count as before), so that the folder gives
  the same result as without that container.
\<close>

theorem no_terminator_skipped:
  assumes "read_file fs p = Some raw" and "NL \<notin> set raw"
  shows "parse_emlx_bytes raw = None \<and> parse_emlx fs p = None \<and>
         convert_loop U fs clk (p # rest) st = convert_loop U fs clk rest st \<and>
         convert_loop U fs clk ps st = convert_loop U fs clk (filter (\<lambda>q. q \<noteq> p) ps) st"
proof -
  have 1: "parse_emlx_bytes raw = None" using assms(2) by (rule parse_no_nl)
  have 2: "parse_emlx fs p = None" using assms(1) 1 by (simp add: parse_emlx_def)
  then have 3: "parse_emlx fs p = None \<or> parse_emlx fs p = Some []" by simp
  show ?thesis
    using 1 2 convert_loop_skip[OF 3] convert_loop_filter[OF 3] by blast
qed

theorem no_terminator_skipped_witness:
  "read_file example_fs (asc ''/m/In.mbox/1.emlx'') = Some ''junk'' \<and> NL \<notin> set ''junk'' \<and>
   parse_emlx example_fs (asc ''/m/In.mbox/1.emlx'') = None \<and>
   convert_loop example_db example_fs (\<lambda>k. example_now)
       (find_emlx_files example_fs (asc ''/m/In.mbox'')) ([], 0, 0)
     = convert_loop example_db example_fs (\<lambda>k. example_now)
         (filter (\<lambda>q. q \<noteq> asc ''/m/In.mbox/1.emlx'')
            (find_emlx_files example_fs (asc ''/m/In.mbox''))) ([], 0, 0)"
proof -
  have r: "read_file example_fs (asc ''/m/In.mbox/1.emlx'') = Some ''junk''"
    by (simp add: fs_defs example_fs_def asc_simps)
  have n: "NL \<notin> set ''junk''"
    by (simp add: NL_def)
  show ?thesis
    using no_terminator_skipped [OF r n] r n by blast
qed

lemma py_slice_empty: "py_slice xs i i = []"
  by (simp add: py_slice_def Let_def)

text \<open>
  Claim C10. A container whose length field parses to 0 decodes successfully, to the empty
  byte string, and the folder conversion then treats it as it treats a failure: the loop
  goes on with the state unchanged, nothing is written and the count does not grow.
\<close>

theorem zero_length_skipped:
  assumes "read_file fs p = Some raw" and "find_nl raw = Some i" and "declared_count raw i = Some 0"
  shows "parse_emlx_bytes raw = Some [] \<and> parse_emlx fs p = Some [] \<and>
         convert_loop U fs clk (p # rest) st = convert_loop U fs clk rest st \<and>
         convert_loop U fs clk ps st = convert_loop U fs clk (filter (\<lambda>q. q \<noteq> p) ps) st"
proof -
  have 1: "parse_emlx_bytes raw = Some []"
    using assms(2,3) by (simp add: parse_emlx_bytes_def py_slice_empty)
  have 2: "parse_emlx fs p = Some []" using assms(1) 1 by (simp add: parse_emlx_def)
  then have 3: "parse_emlx fs p = None \<or> parse_emlx fs p = Some []" by simp
  show ?thesis
    using 1 2 convert_loop_skip[OF 3] convert_loop_filter[OF 3] by blast
qed

theorem zero_length_skipped_witness:
  "read_file example_fs (asc ''/m/In.mbox/2.emlx'') = Some (''0'' @ [NL] @ ''<plist/>'') \<and>
   find_nl (''0'' @ [NL] @ ''<plist/>'') = Some 1 \<and>
   declared_count (''0'' @ [NL] @ ''<plist/>'') 1 = Some 0 \<and>
   parse_emlx example_fs (asc ''/m/In.mbox/2.emlx'') = Some [] \<and>
   convert_loop example_db example_fs (\<lambda>k. example_now)
       (find_emlx_files example_fs (asc ''/m/In.mbox'')) ([], 0, 0)
     = convert_loop example_db example_fs (\<lambda>k. example_now)
         (filter (\<lambda>q. q \<noteq> asc ''/m/In.mbox/2.emlx'')
            (find_emlx_files example_fs (asc ''/m/In.mbox''))) ([], 0, 0)"
proof -
  have r: "read_file example_fs (asc ''/m/In.mbox/2.emlx'') = Some (''0'' @ [NL] @ ''<plist/>'')"
    by (simp add: fs_defs example_fs_def asc_simps)
  have f: "find_nl (''0'' @ [NL] @ ''<plist/>'') = Some 1"
    by (simp add: NL_def)
  have d: "declared_count (''0'' @ [NL] @ ''<plist/>'') 1 = Some 0"
    by (simp add: declared_count_def decode_ascii_def py_int_def py_strip_def
        ascii_space_def is_digit_def digit_val_def)
  show ?thesis
    using zero_length_skipped [OF r f d] r f d by blast
qed

section \<open>Properties of the text functions\<close>

lemma cp2_scalar: assumes "\<not> b < 0xC2" "b < 0xE0" "is_cont b2" shows "scalar (cp2 b b2)"
proof -
  have "(b - 0xC0) * 64 + (b2 - 0x80) < 0xD800"
    using assms unfolding is_cont_def by linarith
  then show ?thesis by (simp add: scalar_def cp2_def)
qed

lemma cp3_scalar: 
  assumes "\<not> b < 0xE0" "b < 0xF0" "is_cont b2" "is_cont b3"
    and e0: "b2 < 0xA0 \<Longrightarrow> b \<noteq> 0xE0" and ed: "\<not> b2 < 0xA0 \<Longrightarrow> b \<noteq> 0xED"
  shows "scalar (cp3 b b2 b3)"
proof (cases "b < 0xED")
  case True
  then have "(b - 0xE0) * 4096 + (b2 - 0x80) * 64 + (b3 - 0x80) < 0xD800"
    using assms(3,4) unfolding is_cont_def by linarith
  then show ?thesis by (simp add: scalar_def cp3_def)
next
  case False
  show ?thesis
  proof (cases "b = 0xED")
    case True
    then have "b2 < 0xA0" using ed by blast
    then have "(b - 0xE0) * 4096 + (b2 - 0x80) * 64 + (b3 - 0x80) < 0xD800"
      using True assms(3,4) unfolding is_cont_def by linarith
    then show ?thesis by (simp add: scalar_def cp3_def)
  next
    case ne: False
    with False have "0xED < b" by linarith
    then have "0xE000 \<le> (b - 0xE0) * 4096 + (b2 - 0x80) * 64 + (b3 - 0x80)"
      "(b - 0xE0) * 4096 + (b2 - 0x80) * 64 + (b3 - 0x80) < 0x110000"
      using assms(2,3,4) unfolding is_cont_def by linarith+
    then show ?thesis by (simp add: scalar_def cp3_def)
  qed
qed

lemma cp4_scalar:
  assumes "\<not> b < 0xF0" "b < 0xF5" "is_cont b2" "is_cont b3" "is_cont b4"
    and f0: "b2 < 0x90 \<Longrightarrow> b \<noteq> 0xF0" and f4: "\<not> b2 < 0x90 \<Longrightarrow> b \<noteq> 0xF4"
  shows "scalar (cp4 b b2 b3 b4)"
proof -
  have lo: "0x10000 \<le> (b - 0xF0) * 262144 + (b2 - 0x80) * 4096"
  proof (cases "b = 0xF0")
    case True
    then have "\<not> b2 < 0x90" using f0 by blast
    then show ?thesis by linarith
  next
    case False
    then have "0xF0 < b" using assms(1) by linarith
    then show ?thesis by linarith
  qed
  have hi: "(b - 0xF0) * 262144 + (b2 - 0x80) * 4096 + (b3 - 0x80) * 64 + (b4 - 0x80) < 0x110000"
  proof (cases "b = 0xF4")
    case True
    then have "b2 < 0x90" using f4 by blast
    then show ?thesis using True assms(3,4,5) unfolding is_cont_def by linarith
  next
    case False
    then have "b < 0xF4" using assms(2) by linarith
    then show ?thesis using assms(3,4,5) unfolding is_cont_def by linarith
  qed
  from lo hi show ?thesis by (simp add: scalar_def cp4_def)
qed

lemma utf8_next_scalar: "scalar (fst (utf8_next b bs))"
proof -
  have F: "scalar 0xFFFD" by (simp add: scalar_def)
  have A: "b < 0x80 \<Longrightarrow> scalar b" by (simp add: scalar_def)
  show ?thesis
    unfolding utf8_next_def
    using F A by (auto split: list.split intro: cp2_scalar cp3_scalar cp4_scalar)
qed

lemma utf8_dec_scalar: "list_all scalar (utf8_dec bs)"
proof (induction bs rule: utf8_dec.induct)
  case 1
  then show ?case by simp
next
  case (2 b bs)
  then show ?case using utf8_next_scalar[of b bs] by simp
qed

lemma encode_utf8_append:
  "encode_utf8 (a @ b) =
     (case encode_utf8 a of None \<Rightarrow> None
      | Some x \<Rightarrow> (case encode_utf8 b of None \<Rightarrow> None | Some y \<Rightarrow> Some (x @ y)))"
  by (induction a) (auto split: option.splits)

lemma enc_cp_scalar: "scalar c \<Longrightarrow> \<exists>bs. utf8_enc_cp c = Some bs"
  by (auto simp: scalar_def utf8_enc_cp_def)

lemma encode_scalar: "list_all scalar s \<Longrightarrow> \<exists>b. encode_utf8 s = Some b"
proof (induction s)
  case Nil
  then show ?case by simp
next
  case (Cons c s)
  then obtain bs b where "utf8_enc_cp c = Some bs" "encode_utf8 s = Some b"
    using enc_cp_scalar[of c] by auto
  then show ?case by simp
qed

lemma asc_scalar: "list_all scalar (asc s)"
proof -
  have "scalar (of_char c)" for c :: char
    using nat_of_char_less_256[of c] unfolding scalar_def by linarith
  then show ?thesis by (induction s) (simp_all add: asc_def)
qed

lemma encode_asc: "list_all (\<lambda>c. (of_char c :: nat) < 128) s \<Longrightarrow> encode_utf8 (asc s) = Some s"
  by (induction s) (auto simp: asc_def utf8_enc_cp_def)

lemma enc_cp_bytes:
  assumes "utf8_enc_cp c = Some bs"
  shows "bs \<noteq> [] \<and> (\<forall>b \<in> set bs. b < 256 \<and> (b = 10 \<longrightarrow> c = 10))"
proof -
  consider "c < 0x80" | "\<not> c < 0x80" "c < 0x800" | "\<not> c < 0x800" "c < 0x10000" | "\<not> c < 0x10000" "c < 0x110000"
    using assms by (auto simp: utf8_enc_cp_def split: if_splits)
  then show ?thesis
  proof cases
    case 1
    with assms show ?thesis by (auto simp: utf8_enc_cp_def)
  next
    case 2
    then have "c div 64 < 32" by linarith
    with 2 assms show ?thesis by (auto simp: utf8_enc_cp_def)
  next
    case 3
    then have "c div 4096 < 16" by linarith
    with 3 assms show ?thesis by (auto simp: utf8_enc_cp_def split: if_splits)
  next
    case 4
    then have "c div 262144 < 5" by linarith
    with 4 assms show ?thesis by (auto simp: utf8_enc_cp_def split: if_splits)
  qed
qed

lemma encode_no_nl:
  "encode_utf8 s = Some b \<Longrightarrow> 10 \<notin> set s \<Longrightarrow> NL \<notin> set b"
proof (induction s arbitrary: b)
  case Nil
  then show ?case by simp
next
  case (Cons c s)
  then obtain bs r where bs: "utf8_enc_cp c = Some bs" and r: "encode_utf8 s = Some r"
    and b: "b = map char_of bs @ r"
    by (auto split: option.splits)
  have "NL \<notin> set r" using Cons r by simp
  moreover have "NL \<notin> set (map char_of bs)"
  proof
    assume "NL \<in> set (map char_of bs)"
    then obtain x where x: "x \<in> set bs" "char_of x = NL" by auto
    then have "x < 256" using enc_cp_bytes[OF bs] by blast
    then have "of_char (char_of x :: char) = x" by (simp add: of_char_of)
    then have "x = 10" using x(2) by (simp add: NL_def)
    then have "c = 10" using enc_cp_bytes[OF bs] x(1) by blast
    then show False using Cons.prems(2) by simp
  qed
  ultimately show ?case using b by simp
qed

lemma encode_nonempty: "encode_utf8 s = Some b \<Longrightarrow> s \<noteq> [] \<Longrightarrow> b \<noteq> []"
  using enc_cp_bytes by (cases s) (auto split: option.splits)

section \<open>Properties of the patterns\<close>

lemma greedy_star_sound:
  "(m, r) \<in> set (greedy_star P s) \<Longrightarrow> s = m @ r \<and> list_all P m"
  by (induction s arbitrary: m r) (auto split: if_splits)

lemma greedy_plus_sound:
  "(m, r) \<in> set (greedy_plus P s) \<Longrightarrow> s = m @ r \<and> list_all P m \<and> m \<noteq> []"
  by (cases s) (auto simp: greedy_plus_def split: if_splits dest: greedy_star_sound)

lemma lazy_plus_sound:
  "(m, r) \<in> set (lazy_plus P s) \<Longrightarrow> s = m @ r \<and> list_all P m \<and> m \<noteq> []"
  by (induction s arbitrary: m r) (auto split: if_splits)

lemma lit_ci_sound: "r \<in> set (lit_ci p s) \<Longrightarrow> \<exists>m. s = m @ r"
proof (induction p s rule: lit_ci.induct)
  case (1 s)
  then show ?case by simp
next
  case (2 p ps)
  then show ?case by simp
next
  case (3 p ps c cs)
  then show ?case by (auto split: if_splits intro: exI[of _ "c # _"])
qed

lemma field_at_sound:
  assumes "g \<in> set (field_at name s)"
  shows "g \<noteq> [] \<and> 10 \<notin> set g \<and> set g \<subseteq> set s"
proof -
  from assms obtain r1 w r2 r3 where
    1: "r1 \<in> set (lit_ci name s)" and 2: "(w, r2) \<in> set (greedy_star uspace r1)"
    and 3: "(g, r3) \<in> set (lazy_plus (\<lambda>c. c \<noteq> 10) r2)"
    by (auto simp: field_at_def List.bind_def split: if_splits)
  from lit_ci_sound[OF 1] obtain m where m: "s = m @ r1" by blast
  from greedy_star_sound[OF 2] have w: "r1 = w @ r2" by simp
  from lazy_plus_sound[OF 3] have g: "r2 = g @ r3" "list_all (\<lambda>c. c \<noteq> 10) g" "g \<noteq> []" by simp_all
  show ?thesis using m w g by (auto simp: list_all_iff)
qed

lemma field_search_sound:
  "field_search name bol s = Some g \<Longrightarrow> g \<noteq> [] \<and> 10 \<notin> set g \<and> set g \<subseteq> set s"
proof (induction name bol s rule: field_search.induct)
  case (1 name bol)
  then have "g \<in> set (field_at name [])"
    by (auto split: list.splits if_splits)
  from field_at_sound[OF this] show ?case .
next
  case (2 name bol c cs)
  show ?case
  proof (cases "if bol then field_at name (c # cs) else []")
    case Nil
    with 2 show ?thesis by auto
  next
    case (Cons a list)
    with 2 have "g \<in> set (field_at name (c # cs))"
      by (auto split: if_splits)
    from field_at_sound[OF this] show ?thesis .
  qed
qed

lemma ustrip_subset: "set (ustrip s) \<subseteq> set s"
  by (auto simp: ustrip_def dest!: set_dropWhileD)

lemma ustrip_ends:
  "ustrip s \<noteq> [] \<Longrightarrow> \<not> uspace (hd (ustrip s)) \<and> \<not> uspace (last (ustrip s))"
proof -
  assume ne: "ustrip s \<noteq> []"
  let ?d = "dropWhile uspace s"
  let ?e = "dropWhile uspace (rev ?d)"
  have e: "?e \<noteq> []" using ne by (simp add: ustrip_def)
  then have "\<not> uspace (hd ?e)" by (rule hd_dropWhile)
  then have l: "\<not> uspace (last (ustrip s))" using e by (simp add: ustrip_def last_rev)
  have d: "?d \<noteq> []"
  proof
    assume "?d = []"
    then have "?e = []" by (simp only: rev.simps dropWhile.simps)
    with e show False by blast
  qed
  then have hd: "\<not> uspace (hd ?d)" by (rule hd_dropWhile)
  have "rev ?d = takeWhile uspace (rev ?d) @ ?e" by simp
  then have "?d = rev ?e @ rev (takeWhile uspace (rev ?d))"
    by (metis rev_append rev_rev_ident)
  then have "hd ?d = hd (rev ?e)" using e by (metis hd_append2 rev_is_Nil_conv)
  then show ?thesis using hd l by (simp add: ustrip_def)
qed

lemma bind_map: "List.bind (map h xs) k = List.bind xs (\<lambda>x. k (h x))"
  by (induction xs) simp_all

lemma bind_append: "List.bind (xs @ ys) k = List.bind xs k @ List.bind ys k"
  by (induction xs) simp_all

lemma bind_greedy_star:
  "List.bind (greedy_star P s) (\<lambda>(g, r2). if r2 \<noteq> [] \<and> \<not> P (hd r2) then [f g] else [])
   = (if dropWhile P s \<noteq> [] then [f (takeWhile P s)] else [])"
proof (induction s arbitrary: f)
  case Nil
  then show ?case by simp
next
  case (Cons c cs)
  let ?k = "\<lambda>f. (\<lambda>(g, r2). if r2 \<noteq> [] \<and> \<not> P (hd r2) then [f g] else [])"
  show ?case
  proof (cases "P c")
    case True
    have "List.bind (greedy_star P (c # cs)) (?k f)
          = List.bind (map (\<lambda>(m, r). (c # m, r)) (greedy_star P cs)) (?k f)
            @ List.bind [([], c # cs)] (?k f)"
      using True by (simp only: greedy_star.simps if_True bind_append)
    also have "List.bind [([], c # cs)] (?k f) = []"
      using True by simp
    also have "List.bind (map (\<lambda>(m, r). (c # m, r)) (greedy_star P cs)) (?k f)
          = List.bind (greedy_star P cs) (?k (f \<circ> (#) c))"
      by (simp add: bind_map case_prod_unfold cong: if_cong)
    also have "\<dots> = (if dropWhile P cs \<noteq> [] then [(f \<circ> (#) c) (takeWhile P cs)] else [])"
      by (rule Cons.IH)
    finally show ?thesis using True by simp
  next
    case False
    then show ?thesis by simp
  qed
qed

lemma angle_at_eq:
  "angle_at s =
     (case s of [] \<Rightarrow> []
      | c # r \<Rightarrow> if c = 60 \<and> takeWhile (\<lambda>x. x \<noteq> 62) r \<noteq> [] \<and> dropWhile (\<lambda>x. x \<noteq> 62) r \<noteq> []
                 then [takeWhile (\<lambda>x. x \<noteq> 62) r] else [])"
proof (cases s)
  case Nil
  then show ?thesis by (simp add: angle_at_def one_of_def)
next
  case (Cons c r)
  have one: "\<And>g r2. List.bind (one_of (is_ch (CHR ''>'')) r2) (\<lambda>(x, r3). [g])
               = (if r2 \<noteq> [] \<and> \<not> (hd r2 \<noteq> 62) then [g] else [])"
    by (auto simp: one_of_def is_ch_def split: list.splits)
  show ?thesis
  proof (cases "c = 60")
    case False
    then show ?thesis using Cons by (simp add: angle_at_def one_of_def is_ch_def)
  next
    case True
    have "angle_at s = List.bind (one_of (is_ch (CHR ''<'')) s) (\<lambda>(l, r1).
            List.bind (greedy_plus (\<lambda>c. c \<noteq> of_char (CHR ''>'')) r1)
             (\<lambda>(g, r2). if r2 \<noteq> [] \<and> \<not> (hd r2 \<noteq> 62) then [g] else []))"
      unfolding angle_at_def by (simp only: one)
    also have "\<dots> = List.bind (greedy_plus (\<lambda>x. x \<noteq> 62) r)
             (\<lambda>(g, r2). if r2 \<noteq> [] \<and> \<not> (hd r2 \<noteq> 62) then [g] else [])"
      using True Cons by (simp add: one_of_def is_ch_def)
    also have "\<dots> = (if takeWhile (\<lambda>x. x \<noteq> 62) r \<noteq> [] \<and> dropWhile (\<lambda>x. x \<noteq> 62) r \<noteq> []
                       then [takeWhile (\<lambda>x. x \<noteq> 62) r] else [])"
    proof (cases r)
      case Nil
      then show ?thesis by (simp add: greedy_plus_def)
    next
      case (Cons d ds)
      show ?thesis
      proof (cases "d = 62")
        case True
        then show ?thesis using Cons by (simp add: greedy_plus_def)
      next
        case False
        have "List.bind (map (\<lambda>(m, r). (d # m, r)) (greedy_star (\<lambda>x. x \<noteq> 62) ds))
                (\<lambda>(g, r2). if r2 \<noteq> [] \<and> \<not> (hd r2 \<noteq> 62) then [g] else [])
              = List.bind (greedy_star (\<lambda>x. x \<noteq> 62) ds)
                (\<lambda>(g, r2). if r2 \<noteq> [] \<and> \<not> (hd r2 \<noteq> 62) then [(#) d g] else [])"
          by (simp add: bind_map case_prod_unfold cong: if_cong)
        also have "\<dots> = (if dropWhile (\<lambda>x. x \<noteq> 62) ds \<noteq> [] then [d # takeWhile (\<lambda>x. x \<noteq> 62) ds] else [])"
          by (rule bind_greedy_star)
        finally show ?thesis using False Cons by (simp add: greedy_plus_def)
      qed
    qed
    finally show ?thesis using True Cons by simp
  qed
qed

lemma angle_search_Some:
  "angle_search s = Some a \<Longrightarrow>
   \<exists>pre post. s = pre @ 60 # a @ 62 # post \<and> a \<noteq> [] \<and> 62 \<notin> set a"
proof (induction s)
  case Nil
  then show ?case by simp
next
  case (Cons c cs)
  show ?case
  proof (cases "angle_at (c # cs)")
    case Nil
    with Cons obtain pre post where "cs = pre @ 60 # a @ 62 # post \<and> a \<noteq> [] \<and> 62 \<notin> set a"
      by auto
    then have "c # cs = (c # pre) @ 60 # a @ 62 # post \<and> a \<noteq> [] \<and> 62 \<notin> set a" by simp
    then show ?thesis by blast
  next
    case (Cons g gs)
    with Cons.prems have ga: "g = a" by simp
    let ?t = "takeWhile (\<lambda>x. x \<noteq> 62) cs" and ?d = "dropWhile (\<lambda>x. x \<noteq> 62) cs"
    from Cons have c: "c = 60" "?t \<noteq> []" "?d \<noteq> []" "g = ?t"
      by (auto simp: angle_at_eq split: if_splits)
    have "hd ?d = 62" using hd_dropWhile[OF c(3)] by simp
    then obtain post where "?d = 62 # post" using c(3) by (cases ?d) auto
    then have "cs = ?t @ 62 # post" by (metis takeWhile_dropWhile_id)
    moreover have "62 \<notin> set ?t" by (auto dest: set_takeWhileD)
    ultimately have "c # cs = [] @ 60 # a @ 62 # post \<and> a \<noteq> [] \<and> 62 \<notin> set a"
      using c ga by simp
    then show ?thesis by blast
  qed
qed

lemma angle_search_None:
  "angle_search s = None \<Longrightarrow>
   \<not> (\<exists>pre a post. s = pre @ 60 # a @ 62 # post \<and> a \<noteq> [] \<and> 62 \<notin> set a)"
proof (induction s)
  case Nil
  then show ?case by simp
next
  case (Cons c cs)
  then have at: "angle_at (c # cs) = []" and rest: "angle_search cs = None"
    by (auto split: list.splits)
  show ?case
  proof
    assume "\<exists>pre a post. c # cs = pre @ 60 # a @ 62 # post \<and> a \<noteq> [] \<and> 62 \<notin> set a"
    then obtain pre a post where d: "c # cs = pre @ 60 # a @ 62 # post" "a \<noteq> []" "62 \<notin> set a"
      by blast
    show False
    proof (cases pre)
      case Nil
      with d have c: "c = 60" "cs = a @ 62 # post" by simp_all
      have "takeWhile (\<lambda>x. x \<noteq> 62) cs = a"
        using d(3) c(2) by (auto simp: takeWhile_tail takeWhile_eq_all_conv)
      moreover have "dropWhile (\<lambda>x. x \<noteq> 62) cs = 62 # post"
        using d(3) c(2) by (subst c(2), subst dropWhile_append2) auto
      ultimately show False using at c d(2) by (simp add: angle_at_eq)
    next
      case (Cons p ps)
      with d have "cs = ps @ 60 # a @ 62 # post" by simp
      with Cons.IH[OF rest] d show False by blast
    qed
  qed
qed

lemma split_first_Some:
  "split_first s = Some t \<Longrightarrow> t \<noteq> [] \<and> set t \<subseteq> set s \<and> t = takeWhile (\<lambda>x. \<not> uspace x) (dropWhile uspace s)"
proof -
  assume a: "split_first s = Some t"
  then obtain c r where cr: "dropWhile uspace s = c # r" and t: "t = takeWhile (\<lambda>x. \<not> uspace x) (c # r)"
    by (auto simp: split_first_def split: list.splits)
  have "\<not> uspace c" using hd_dropWhile[of uspace s] cr by simp
  then have "t \<noteq> []" using t by simp
  moreover have "set t \<subseteq> set s"
    using t cr by (metis set_dropWhileD set_takeWhileD subsetI)
  ultimately show ?thesis using t cr by simp
qed

lemma split_first_defined:
  "x \<in> set s \<Longrightarrow> \<not> uspace x \<Longrightarrow> \<exists>t. split_first s = Some t"
proof -
  assume "x \<in> set s" "\<not> uspace x"
  then have "dropWhile uspace s \<noteq> []" by (auto simp: dropWhile_eq_Nil_conv)
  then show ?thesis by (cases "dropWhile uspace s") (auto simp: split_first_def)
qed

lemma ulines_ne: "ulines h \<noteq> []"
  by (induction h) (auto split: list.splits)

lemma ulines_cases:
  "ulines h = l # ls \<Longrightarrow>
   10 \<notin> set l \<and> ((ls = [] \<and> h = l) \<or> (\<exists>h'. h = l @ 10 # h' \<and> ulines h' = ls))"
proof (induction h arbitrary: l ls)
  case Nil
  then show ?case by simp
next
  case (Cons c cs)
  show ?case
  proof (cases "c = 10")
    case True
    with Cons.prems show ?thesis by auto
  next
    case False
    with Cons.prems ulines_ne[of cs] obtain l' where l': "ulines cs = l' # ls" "l = c # l'"
      by (auto split: list.splits)
    from Cons.IH[OF l'(1)] False l'(2) show ?thesis by auto
  qed
qed

lemma ci_eq_lower: "\<not> (65 \<le> p \<and> p \<le> 90) \<Longrightarrow> ci_eq p c \<longleftrightarrow> ascii_lower c = p"
  by (auto simp: ci_eq_def ascii_lower_def)

lemma lit_ci_eq:
  "\<forall>p \<in> set name. \<not> (65 \<le> p \<and> p \<le> 90) \<Longrightarrow>
   lit_ci name s = (if starts_ci name s then [drop (length name) s] else [])"
proof (induction name s rule: lit_ci.induct)
  case (1 s)
  then show ?case by (simp add: starts_ci_def)
next
  case (2 p ps)
  then show ?case by (simp add: starts_ci_def)
next
  case (3 p ps c cs)
  then show ?case by (auto simp: starts_ci_def ci_eq_lower)
qed

lemma starts_ci_line:
  "10 \<notin> set name \<Longrightarrow> starts_ci name (l @ 10 # h) = starts_ci name l"
proof (induction name arbitrary: l)
  case Nil
  then show ?case by (simp add: starts_ci_def)
next
  case (Cons p ps)
  then have ps: "10 \<notin> set ps" and p: "p \<noteq> 10" by auto
  show ?case
  proof (cases l)
    case Nil
    then show ?thesis using p by (auto simp: starts_ci_def ascii_lower_def)
  next
    case (Cons c cs)
    have "starts_ci ps (cs @ 10 # h) = starts_ci ps cs" using ps by (rule Cons.IH)
    then show ?thesis using Cons by (simp add: starts_ci_def)
  qed
qed

lemma lazy_eol:
  "List.bind (lazy_plus (\<lambda>c. c \<noteq> 10) s) (\<lambda>(g, r3). if r3 = [] \<or> hd r3 = 10 then [f g] else [])
   = (if s \<noteq> [] \<and> hd s \<noteq> 10 then [f (takeWhile (\<lambda>c. c \<noteq> 10) s)] else [])"
proof (induction s arbitrary: f)
  case Nil
  then show ?case by simp
next
  case (Cons c cs)
  let ?k = "\<lambda>f. (\<lambda>(g, r3). if r3 = [] \<or> hd r3 = 10 then [f g] else [])"
  show ?case
  proof (cases "c = 10")
    case True
    then show ?thesis by simp
  next
    case False
    have "List.bind (lazy_plus (\<lambda>c. c \<noteq> 10) (c # cs)) (?k f)
          = ?k f ([c], cs) @ List.bind (map (\<lambda>(m, r). (c # m, r)) (lazy_plus (\<lambda>c. c \<noteq> 10) cs)) (?k f)"
      using False by simp
    also have "List.bind (map (\<lambda>(m, r). (c # m, r)) (lazy_plus (\<lambda>c. c \<noteq> 10) cs)) (?k f)
          = List.bind (lazy_plus (\<lambda>c. c \<noteq> 10) cs) (?k (f \<circ> (#) c))"
      by (simp add: bind_map case_prod_unfold cong: if_cong)
    also have "\<dots> = (if cs \<noteq> [] \<and> hd cs \<noteq> 10 then [(f \<circ> (#) c) (takeWhile (\<lambda>c. c \<noteq> 10) cs)] else [])"
      by (rule Cons.IH)
    finally show ?thesis using False by (cases cs) auto
  qed
qed

lemma greedy_star_first:
  "list_all P w \<Longrightarrow> \<not> P x \<Longrightarrow> \<exists>more. greedy_star P (w @ x # r) = (w, x # r) # more"
  by (induction w) auto

lemma field_at_value:
  assumes nm: "\<forall>p \<in> set name. \<not> (65 \<le> p \<and> p \<le> 90)"
    and st: "starts_ci name l" and nl: "10 \<notin> set l"
    and v: "ustrip (drop (length name) l) \<noteq> []"
    and rest: "rest = [] \<or> hd rest = 10"
  shows "\<exists>more. field_at name (l @ rest) = dropWhile uspace (drop (length name) l) # more"
proof -
  let ?v = "drop (length name) l"
  let ?w = "takeWhile uspace ?v" and ?g = "dropWhile uspace ?v"
  have len: "length name \<le> length l"
    using st by (auto simp: starts_ci_def dest: arg_cong[where f = length])
  have st': "starts_ci name (l @ rest)"
    using st len by (simp add: starts_ci_def)
  have lit: "lit_ci name (l @ rest) = [?v @ rest]"
    using lit_ci_eq[OF nm, of "l @ rest"] st' len by simp
  have g: "?g \<noteq> []"
  proof
    assume "?g = []"
    then have "ustrip ?v = []" by (simp only: ustrip_def rev.simps dropWhile.simps)
    with v show False by blast
  qed
  then obtain x t where xt: "?g = x # t" by (cases ?g) auto
  have x: "\<not> uspace x" using hd_dropWhile[OF g] xt by simp
  have split: "?v = ?w @ x # t" using xt by (metis takeWhile_dropWhile_id)
  have w: "list_all uspace ?w" by (auto simp: list_all_iff dest: set_takeWhileD)
  from greedy_star_first[OF w x, of "t @ rest"] obtain more where
    gs: "greedy_star uspace (?v @ rest) = (?w, x # t @ rest) # more"
    using split by (metis append.assoc append_Cons)
  have "set (x # t) \<subseteq> set l"
    using xt by (metis set_dropWhileD set_drop_subset subsetD subsetI)
  then have nl': "10 \<notin> set (x # t)" using nl by blast
  then have x10: "x \<noteq> 10" by auto
  have tw: "takeWhile (\<lambda>c. c \<noteq> 10) (x # t @ rest) = x # t"
  proof -
    have "takeWhile (\<lambda>c. c \<noteq> 10) ((x # t) @ rest) = (x # t) @ takeWhile (\<lambda>c. c \<noteq> 10) rest"
      using nl' by (intro takeWhile_append2) auto
    moreover have "takeWhile (\<lambda>c. c \<noteq> 10) rest = []"
      using rest by (cases rest) auto
    ultimately show ?thesis by simp
  qed
  have "field_at name (l @ rest) =
          List.bind (greedy_star uspace (?v @ rest)) (\<lambda>(w, r2).
            List.bind (lazy_plus (\<lambda>c. c \<noteq> 10) r2)
              (\<lambda>(g, r3). if r3 = [] \<or> hd r3 = 10 then [g] else []))"
    by (simp add: field_at_def lit)
  also have "\<dots> = List.bind (greedy_star uspace (?v @ rest)) (\<lambda>(w, r2).
            if r2 \<noteq> [] \<and> hd r2 \<noteq> 10 then [takeWhile (\<lambda>c. c \<noteq> 10) r2] else [])"
    using lazy_eol[of _ "\<lambda>g. g"] by simp
  also have "\<dots> = (x # t) # List.bind more (\<lambda>(w, r2).
            if r2 \<noteq> [] \<and> hd r2 \<noteq> 10 then [takeWhile (\<lambda>c. c \<noteq> 10) r2] else [])"
    unfolding gs using x10 tw by simp
  finally show ?thesis using xt by simp
qed

lemma field_at_none:
  assumes nm: "\<forall>p \<in> set name. \<not> (65 \<le> p \<and> p \<le> 90)" and "\<not> starts_ci name s"
  shows "field_at name s = []"
  using assms lit_ci_eq[OF nm, of s] by (simp add: field_at_def)

lemma field_search_skip:
  "10 \<notin> set l \<Longrightarrow> field_search name False (l @ 10 # h) = field_search name True h"
  by (induction l) auto

lemma field_search_skip_end:
  "10 \<notin> set l \<Longrightarrow> field_search name False l = None"
  by (induction l) auto

lemma ustrip_dropWhile: "ustrip (dropWhile uspace v) = ustrip v"
  by (simp add: ustrip_def)

lemma field_search_lines:
  assumes nm: "\<forall>p \<in> set name. \<not> (65 \<le> p \<and> p \<le> 90)" and n10: "10 \<notin> set name"
    and ne: "name \<noteq> []"
    and hv: "map_option ustrip (first_field name (ulines h)) \<noteq> Some []"
  shows "map_option ustrip (field_search name True h)
         = map_option ustrip (first_field name (ulines h))"
  using hv
proof (induction "ulines h" arbitrary: h)
  case Nil
  then show ?case using ulines_ne[of h] by simp
next
  case (Cons l ls)
  from ulines_cases[OF Cons.hyps(2)[symmetric]] have nl: "10 \<notin> set l"
    and form: "(ls = [] \<and> h = l) \<or> (\<exists>h'. h = l @ 10 # h' \<and> ulines h' = ls)"
    by blast+
  from form obtain rest where h: "h = l @ rest" and rest: "rest = [] \<or> hd rest = 10"
    by auto
  have sh: "starts_ci name h = starts_ci name l"
    using form starts_ci_line[OF n10] by auto
  show ?case
  proof (cases "starts_ci name l")
    case True
    then have ff: "first_field name (ulines h) = Some (drop (length name) l)"
      using Cons.hyps(2)[symmetric] by simp
    with Cons.prems have v: "ustrip (drop (length name) l) \<noteq> []" by simp
    from field_at_value[OF nm True nl v rest] obtain more where
      fa: "field_at name h = dropWhile uspace (drop (length name) l) # more"
      using h by blast
    have "h \<noteq> []" using True ne h by (auto simp: starts_ci_def)
    then obtain c cs where cs: "h = c # cs" by (cases h) auto
    have "field_search name True h = Some (dropWhile uspace (drop (length name) l))"
      using fa unfolding cs by simp
    then show ?thesis using ff by (simp add: ustrip_dropWhile)
  next
    case False
    then have ff: "first_field name (ulines h) = first_field name ls"
      using Cons.hyps(2)[symmetric] by simp
    have fa: "field_at name h = []"
      using field_at_none[OF nm] sh False by blast
    from form show ?thesis
    proof
      assume a: "ls = [] \<and> h = l"
      have "field_search name True h = None"
      proof (cases h)
        case Nil
        then show ?thesis using fa by simp
      next
        case (Cons c cs)
        then have "c \<noteq> 10" "10 \<notin> set cs" using a nl by auto
        then show ?thesis using fa Cons field_search_skip_end[of cs name] by simp
      qed
      then show ?thesis using ff a by simp
    next
      assume "\<exists>h'. h = l @ 10 # h' \<and> ulines h' = ls"
      then obtain h' where h': "h = l @ 10 # h'" "ulines h' = ls" by blast
      have "map_option ustrip (first_field name (ulines h')) \<noteq> Some []"
        using Cons.prems ff h'(2) by simp
      from Cons.hyps(1)[OF h'(2)[symmetric] this]
      have ih: "map_option ustrip (field_search name True h')
                = map_option ustrip (first_field name ls)"
        using h'(2) by simp
      have "field_search name True h = field_search name True h'"
      proof (cases l)
        case Nil
        then show ?thesis using fa h'(1) by simp
      next
        case (Cons c cs)
        then have "c \<noteq> 10" "10 \<notin> set cs" using nl by auto
        then show ?thesis
          using fa h'(1) Cons field_search_skip[of cs name h'] by simp
      qed
      then show ?thesis using ih ff by simp
    qed
  qed
qed

section \<open>Properties of the envelope line\<close>

lemma mailer_daemon_props:
  "mailer_daemon \<noteq> []" "10 \<notin> set mailer_daemon" "list_all scalar mailer_daemon"
  by (simp_all add: mailer_daemon_def asc_scalar) (simp_all add: asc_def)

lemma extract_sender_props:
  assumes "list_all scalar headers"
  shows "\<exists>sender. extract_sender headers = Some sender \<and> sender \<noteq> [] \<and> 10 \<notin> set sender \<and>
           list_all scalar sender"
proof (cases "field_search (asc ''from:'') True headers")
  case None
  then show ?thesis using mailer_daemon_props by (simp add: extract_sender_def)
next
  case (Some g)
  let ?raw = "ustrip g"
  from field_search_sound[OF Some] have g: "10 \<notin> set g" "set g \<subseteq> set headers" by simp_all
  have raw: "10 \<notin> set ?raw" "set ?raw \<subseteq> set headers"
    using g ustrip_subset[of g] by auto
  have sub: "\<And>t. t \<noteq> [] \<Longrightarrow> set t \<subseteq> set ?raw \<Longrightarrow>
               t \<noteq> [] \<and> 10 \<notin> set t \<and> list_all scalar t"
    using raw assms by (auto simp: list_all_iff)
  show ?thesis
  proof (cases "angle_search ?raw")
    case a: (Some a)
    from angle_search_Some[OF a] have "a \<noteq> []" "set a \<subseteq> set ?raw" by auto
    from sub[OF this] show ?thesis using Some a by (simp add: extract_sender_def)
  next
    case n: None
    show ?thesis
    proof (cases "of_char (CHR ''@'') \<in> set ?raw")
      case False
      then show ?thesis using Some n mailer_daemon_props by (simp add: extract_sender_def)
    next
      case at: True
      show ?thesis
      proof (cases "of_char (CHR '' '') \<in> set ?raw")
        case False
        have "?raw \<noteq> []" using at by auto
        from sub[OF this] show ?thesis
          using Some n at False by (simp add: extract_sender_def)
      next
        case True
        have "\<not> uspace (of_char (CHR ''@''))" by (simp add: uspace_def)
        from split_first_defined[OF at this] obtain t where t: "split_first ?raw = Some t" by blast
        from split_first_Some[OF t] have "t \<noteq> []" "set t \<subseteq> set ?raw" by blast+
        from sub[OF this] show ?thesis
          using Some n at True t by (simp add: extract_sender_def)
      qed
    qed
  qed
qed

lemma header_scalar: "list_all scalar (decode_utf8_replace b)"
  by (simp add: decode_utf8_replace_def utf8_dec_scalar)

lemma get_from_line_eq:
  "\<exists>sender. extract_sender (decode_utf8_replace (header_section content)) = Some sender \<and>
     sender \<noteq> [] \<and> 10 \<notin> set sender \<and> list_all scalar sender \<and>
     from_line_try U now content
       = Some (asc ''From '' @ sender @ asc '' '' @
               asc (extract_date U now (decode_utf8_replace (header_section content))) @ [10]) \<and>
     get_from_line U now now_exc content
       = asc ''From '' @ sender @ asc '' '' @
         asc (extract_date U now (decode_utf8_replace (header_section content))) @ [10]"
proof -
  from extract_sender_props[OF header_scalar]
  obtain sender where s: "extract_sender (decode_utf8_replace (header_section content)) = Some sender"
    "sender \<noteq> []" "10 \<notin> set sender" "list_all scalar sender" by blast
  then show ?thesis
    by (simp add: get_from_line_def from_line_try_def Let_def)
qed

lemma from_line_try_Some: "from_line_try U now content \<noteq> None"
  using get_from_line_eq[of content U now] by auto

lemma encode_from_line:
  "\<exists>line. encode_utf8 (get_from_line U now now_exc content) = Some line"
proof -
  from get_from_line_eq[of content U now now_exc] obtain sender where
    s: "list_all scalar sender" and
    e: "get_from_line U now now_exc content
       = asc ''From '' @ sender @ asc '' '' @
         asc (extract_date U now (decode_utf8_replace (header_section content))) @ [10]"
    by blast
  have "list_all scalar (get_from_line U now now_exc content)"
    unfolding e using s asc_scalar by (simp add: scalar_def)
  then show ?thesis by (rule encode_scalar)
qed

lemma digit_char_is_digit: "is_digit (digit_char n) \<and> ascii_str [digit_char n]"
proof -
  have "n mod 10 < 10" by simp
  then consider "n mod 10 = 0" | "n mod 10 = 1" | "n mod 10 = 2" | "n mod 10 = 3" | "n mod 10 = 4"
    | "n mod 10 = 5" | "n mod 10 = 6" | "n mod 10 = 7" | "n mod 10 = 8" | "n mod 10 = 9"
    by atomize_elim arith
  then show ?thesis
    by cases (simp_all add: digit_char_def is_digit_def ascii_str_def NL_def)
qed

lemma day_name:
  assumes "k < 7"
  shows "day_names ! k \<in> set day_names \<and> length (day_names ! k) = 3 \<and> ascii_str (day_names ! k)"
proof -
  have len: "length day_names = 7" by (simp add: day_names_def)
  have all: "\<forall>n \<in> set day_names. length n = 3 \<and> ascii_str n"
    by (simp add: day_names_def ascii_str_def NL_def)
  have "day_names ! k \<in> set day_names" using assms len by simp
  then show ?thesis using all by blast
qed

lemma month_name:
  assumes "1 \<le> m" "m \<le> 12"
  shows "month_names ! (m - 1) \<in> set month_names \<and> length (month_names ! (m - 1)) = 3 \<and>
         ascii_str (month_names ! (m - 1))"
proof -
  have len: "length month_names = 12" by (simp add: month_names_def)
  have all: "\<forall>n \<in> set month_names. length n = 3 \<and> ascii_str n"
    by (simp add: month_names_def ascii_str_def NL_def)
  have "month_names ! (m - 1) \<in> set month_names" using assms len by simp
  then show ?thesis using all by blast
qed

lemma list3: "length xs = 3 \<Longrightarrow> \<exists>a b c. xs = [a, b, c]"
  by (auto simp: numeral_3_eq_3 length_Suc_conv)

lemma ascii_str_append: "ascii_str (a @ b) = (ascii_str a \<and> ascii_str b)"
  by (simp add: ascii_str_def)

lemma ascii_str_Cons: "ascii_str (c # b) = (ascii_str [c] \<and> ascii_str b)"
  by (simp add: ascii_str_def)

lemma strftime_timestamp:
  assumes "valid_datetime dt"
  shows "is_timestamp (strftime dt) \<and> ascii_str (strftime dt)"
proof -
  let ?wd = "day_names ! weekday dt" and ?mn = "month_names ! (month dt - 1)"
  have "weekday dt < 7" by (simp add: weekday_def)
  from day_name[OF this] have wd: "?wd \<in> set day_names" "length ?wd = 3" "ascii_str ?wd" by simp_all
  have "1 \<le> month dt" "month dt \<le> 12" using assms by (simp_all add: valid_datetime_def)
  from month_name[OF this] have mn: "?mn \<in> set month_names" "length ?mn = 3" "ascii_str ?mn"
    by simp_all
  obtain a b c where abc: "?wd = [a, b, c]"
    using list3[OF wd(2)] by blast
  obtain d e f where def: "?mn = [d, e, f]"
    using list3[OF mn(2)] by blast
  have s: "strftime dt = [a, b, c] @ '' '' @ [d, e, f] @ '' '' @ pad2 (day dt) @ '' '' @
     pad2 (hour dt) @ '':'' @ pad2 (minute dt) @ '':'' @ pad2 (second dt) @ '' '' @ pad4 (year dt)"
    unfolding strftime_def abc def ..
  have wd': "[a, b, c] \<in> set day_names" using wd(1) unfolding abc .
  have mn': "[d, e, f] \<in> set month_names" using mn(1) unfolding def .
  have 1: "is_timestamp (strftime dt)"
    unfolding s using wd' mn' digit_char_is_digit
    by (simp add: is_timestamp_def pad2_def pad4_def)
  have sp: "ascii_str '' ''" "ascii_str '':''" by (simp_all add: ascii_str_def NL_def)
  have wd3: "ascii_str [a, b, c]" using wd(3) unfolding abc .
  have mn3: "ascii_str [d, e, f]" using mn(3) unfolding def .
  have p2: "ascii_str (pad2 n)" for n
    using digit_char_is_digit by (simp add: pad2_def ascii_str_def)
  have p4: "ascii_str (pad4 n)" for n
    using digit_char_is_digit by (simp add: pad4_def ascii_str_def)
  have 2: "ascii_str (strftime dt)"
    unfolding s using wd3 mn3 p2 p4 sp
    by (simp only: ascii_str_append simp_thms)
  show ?thesis using 1 2 by simp
qed

lemma strptime_valid: "strptime U a z s = Some dt \<Longrightarrow> valid_datetime dt"
  by (auto simp: strptime_def make_datetime_def Let_def split: list.splits prod.splits if_splits option.splits)

lemma try_formats_valid: "try_formats U fmts s = Some dt \<Longrightarrow> valid_datetime dt"
  by (induction fmts) (auto split: option.splits dest: strptime_valid)

lemma extract_date_timestamp:
  assumes "valid_datetime now"
  shows "is_timestamp (extract_date U now headers) \<and> ascii_str (extract_date U now headers)"
  using assms strftime_timestamp try_formats_valid
  by (auto simp: extract_date_def Let_def split: option.splits)

lemma encode_ascii_str: "ascii_str s \<Longrightarrow> encode_utf8 (asc s) = Some s"
  by (rule encode_asc) (simp add: ascii_str_def list_all_iff)

lemma encode_envelope:
  assumes "valid_datetime now"
  shows "\<exists>token stamp. token \<noteq> [] \<and> NL \<notin> set token \<and> is_timestamp stamp \<and>
           stamp = extract_date U now (decode_utf8_replace (header_section content)) \<and>
           encode_utf8 (get_from_line U now now_exc content)
             = Some (''From '' @ token @ '' '' @ stamp @ [NL])"
proof -
  let ?stamp = "extract_date U now (decode_utf8_replace (header_section content))"
  from get_from_line_eq[of content U now now_exc] obtain sender where
    s: "sender \<noteq> []" "10 \<notin> set sender" "list_all scalar sender" and
    e: "get_from_line U now now_exc content = asc ''From '' @ sender @ asc '' '' @ asc ?stamp @ [10]"
    by blast
  from encode_scalar[OF s(3)] obtain token where t: "encode_utf8 sender = Some token" by blast
  have tok: "token \<noteq> []" "NL \<notin> set token"
    using encode_nonempty[OF t s(1)] encode_no_nl[OF t s(2)] by simp_all
  from extract_date_timestamp[OF assms, of U "decode_utf8_replace (header_section content)"]
  have st: "is_timestamp ?stamp" "ascii_str ?stamp" by simp_all
  have f: "encode_utf8 (asc ''From '') = Some ''From ''" "encode_utf8 (asc '' '') = Some '' ''"
    by (rule encode_ascii_str, simp add: ascii_str_def NL_def)+
  have n: "encode_utf8 [10] = Some [NL]"
    using encode_asc[of "[NL]"] by (simp add: asc_def NL_def)
  have "encode_utf8 (get_from_line U now now_exc content)
          = Some (''From '' @ token @ '' '' @ ?stamp @ [NL])"
    unfolding e by (simp only: encode_utf8_append f t n encode_ascii_str[OF st(2)] option.case)
  then show ?thesis using tok st(1) by blast
qed

lemma convert_loop_step:
  assumes "parse_emlx fs p = Some content" and "content \<noteq> []"
    and "encode_utf8 (get_from_line U (clk t) (clk (t + 1)) content) = Some line"
  shows "convert_loop U fs clk (p # rest) (written, count, t)
         = convert_loop U fs clk rest
             (written @ line @ escape_from_lines content @
                (if endswith (escape_from_lines content) [NL] then [] else [NL]) @ [NL],
              count + 1, t + 1)"
  using assms from_line_try_Some[of U "clk t" content]
  by (auto simp: Let_def)

lemma convert_loop_total3:
  "\<exists>st'. convert_loop U fs clk ps (written, count, t) = Inr st'"
proof (induction ps arbitrary: written count t)
  case Nil
  then show ?case by simp
next
  case (Cons p ps)
  show ?case
  proof (cases "parse_emlx fs p = None \<or> parse_emlx fs p = Some []")
    case True
    show ?thesis unfolding convert_loop_skip[OF True] by (rule Cons.IH)
  next
    case False
    then obtain content where c: "parse_emlx fs p = Some content" "content \<noteq> []" by auto
    from encode_from_line obtain line where
      l: "encode_utf8 (get_from_line U (clk t) (clk (t + 1)) content) = Some line" by blast
    show ?thesis unfolding convert_loop_step[OF c l] by (rule Cons.IH)
  qed
qed

lemma convert_loop_total: "\<exists>st'. convert_loop U fs clk ps st = Inr st'"
  using convert_loop_total3 by (cases st) auto

section \<open>The sender and the time of the envelope line\<close>

lemma angle_search_first: "angle_search s = first_bracketed s"
proof (induction s)
  case Nil
  then show ?case by simp
next
  case (Cons c cs)
  then show ?case by (simp add: angle_at_eq)
qed

lemma get_from_line_spec:
  "get_from_line U now now_exc content =
     asc ''From '' @
     spec_sender (map_option ustrip (field_search (asc ''from:'') True (headers_of content))) @
     asc '' '' @ asc (extract_date U now (headers_of content)) @ [10]"
proof -
  let ?h = "headers_of content"
  from get_from_line_eq[of content U now now_exc, folded headers_of_def] obtain sender where
    s: "extract_sender ?h = Some sender" and
    e: "get_from_line U now now_exc content
          = asc ''From '' @ sender @ asc '' '' @ asc (extract_date U now ?h) @ [10]"
    by blast
  have "sender = spec_sender (map_option ustrip (field_search (asc ''from:'') True ?h))"
  proof (cases "field_search (asc ''from:'') True ?h")
    case None
    with s show ?thesis by (simp add: extract_sender_def spec_sender_def mailer_daemon_def)
  next
    case (Some g)
    show ?thesis
    proof (cases "first_bracketed (ustrip g)")
      case a: (Some a)
      with s Some show ?thesis
        by (simp add: extract_sender_def spec_sender_def angle_search_first)
    next
      case n: None
      show ?thesis
      proof (cases "of_char (CHR ''@'') \<in> set (ustrip g) \<and> of_char (CHR '' '') \<in> set (ustrip g)")
        case True
        have "\<not> uspace (of_char (CHR ''@''))" by (simp add: uspace_def)
        from split_first_defined[OF _ this, of "ustrip g"] True
        obtain t where t: "split_first (ustrip g) = Some t" by blast
        from split_first_Some[OF t] have "t = first_token (ustrip g)" by (simp add: first_token_def)
        with s Some n True t show ?thesis
          by (simp add: extract_sender_def spec_sender_def angle_search_first)
      next
        case False
        with s Some n show ?thesis
          by (auto simp: extract_sender_def spec_sender_def angle_search_first mailer_daemon_def)
      qed
    qed
  qed
  with e show ?thesis by simp
qed


lemmas text_defs = headers_of_def decode_utf8_replace_def byte_vals_def utf8_next_def is_cont_def
  NL_def field_at_def ustrip_def uspace_def ci_eq_def asc_simps

lemmas rx_defs = one_of_def two_of_def greedy_plus_def optional_def followed_by_def is_ch_def
  in_rng_def digit_of_def is_udigit_def digits_value_def

lemmas strptime_defs = re_d_def re_H_def re_M_def re_S_def re_Y_def re_a_def re_b_def re_z_def
  tz_valid_def re_date_time_def re_format_def strptime_def date_formats_def make_datetime_def
  valid_datetime_def days_in_month_def is_leap_def

lemmas strftime_defs = strftime_def weekday_def days_before_year_def days_before_month_def
  day_names_def month_names_def pad2_def pad4_def digit_char_def days_in_month_def is_leap_def

lemma strftime_example_now: "strftime example_now = ''Wed Nov 04 09:05:07 2026''"
  by (simp add: strftime_defs example_now_def)

lemma strftime_example_later: "strftime example_later = ''Wed Nov 04 09:05:08 2026''"
  by (simp add: strftime_defs example_later_def)

lemma valid_example_now: "valid_datetime example_now"
  by (simp add: valid_datetime_def example_now_def days_in_month_def)

lemma header_section_id: "\<not> blank_line b s \<Longrightarrow> header_section s = s"
proof (induction s arbitrary: b rule: header_section.induct)
  case 1
  then show ?case by simp
next
  case (2 c)
  then show ?case by simp
next
  case (3 c d cs)
  from "3.prems" have n: "\<not> blank_line (c = NL) (d # cs)" by simp
  then have cd: "\<not> (c = NL \<and> d = NL)" by auto
  from "3.IH"[OF cd n] cd show ?case by simp
qed

lemma header_section_cut:
  "\<not> blank_line b (hdr @ [NL]) \<Longrightarrow> header_section (hdr @ NL # NL # body) = hdr"
proof (induction hdr arbitrary: b)
  case Nil
  then show ?case by simp
next
  case (Cons c cs)
  from Cons.prems have n: "\<not> blank_line (c = NL) (cs @ [NL])" by simp
  show ?case
  proof (cases cs)
    case Nil
    with n have "c \<noteq> NL" by auto
    then show ?thesis using Nil by simp
  next
    case (Cons d ds)
    with n have cd: "\<not> (c = NL \<and> d = NL)" by auto
    from Cons.IH[OF n] have "header_section (d # ds @ NL # NL # body) = d # ds"
      using Cons by simp
    then show ?thesis using cd Cons by simp
  qed
qed

lemma header_block_section: "header_block content hdr \<Longrightarrow> header_section content = hdr"
proof -
  assume "header_block content hdr"
  then consider "content = hdr" "\<not> blank_line True hdr"
    | "take (length hdr + 2) content = hdr @ [NL, NL]" "\<not> blank_line True (hdr @ [NL])"
    by (auto simp: header_block_def)
  then show ?thesis
  proof cases
    case 1
    then show ?thesis by (simp add: header_section_id)
  next
    case 2
    have "content = take (length hdr + 2) content @ drop (length hdr + 2) content"
      by (simp only: append_take_drop_id)
    then have "content = (hdr @ [NL, NL]) @ drop (length hdr + 2) content"
      by (simp only: 2(1))
    then have "content = hdr @ NL # NL # drop (length hdr + 2) content"
      by simp
    then show ?thesis using header_section_cut[OF 2(2)] by metis
  qed
qed

lemma from_name: "\<forall>p \<in> set (asc ''from:''). \<not> (65 \<le> p \<and> p \<le> 90)" "10 \<notin> set (asc ''from:'')"
  "asc ''from:'' \<noteq> []"
  by (simp_all add: asc_simps)

lemmas line_defs = field_value_def starts_ci_def ascii_lower_def header_block_def CR_def

text \<open>
  Claim C4, amended. A blank line is a line, ended by its line terminator, that is empty
  or holds a carriage return only. Take a message that has no blank line, or whose first
  blank line is an empty line and not the first line of the message, and let \<open>hdr\<close> be
  its header block: the lines before the first blank line, without the terminator of the
  last of them, or the whole message when it has no blank line. Let the \<open>From\<close> field be
  the first line of the decoded header block that starts with \<open>From:\<close> in either case,
  and its value the rest of that line without surrounding whitespace; let the field, if
  there is one, have a value that is not empty. Then the sender token of the envelope
  line is: the first address in angle brackets if the value has one; otherwise, if the
  value holds an \<open>@\<close>, its first whitespace-delimited token when the value holds a
  blank, and the whole value when it holds none; otherwise, and when the header block has
  no \<open>From\<close> field, the literal \<open>MAILER-DAEMON\<close>. The second and third part say what
  the first address in angle brackets is: a non-empty text without \<open>>\<close> that stands
  between \<open><\<close> and \<open>>\<close> in the value, found whenever the value has such a text.
\<close>

theorem envelope_sender:
  assumes "header_block content hdr"
    and "field_value (asc ''from:'') hdr \<noteq> Some []"
  shows "get_from_line U now now_exc content =
     asc ''From '' @ spec_sender (field_value (asc ''from:'') hdr) @
     asc '' '' @ asc (extract_date U now (decode_utf8_replace hdr)) @ [10] \<and>
   (first_bracketed raw = Some a \<longrightarrow>
      (\<exists>pre post. raw = pre @ 60 # a @ 62 # post \<and> a \<noteq> [] \<and> 62 \<notin> set a)) \<and>
   (first_bracketed raw = None \<longrightarrow>
      \<not> (\<exists>pre b post. raw = pre @ 60 # b @ 62 # post \<and> b \<noteq> [] \<and> 62 \<notin> set b))"
proof (intro conjI impI)
  have h: "headers_of content = decode_utf8_replace hdr"
    using header_block_section[OF assms(1)] by (simp add: headers_of_def)
  have "map_option ustrip (field_search (asc ''from:'') True (decode_utf8_replace hdr))
        = field_value (asc ''from:'') hdr"
    unfolding field_value_def
    using assms(2) by (intro field_search_lines from_name) (simp add: field_value_def)
  then show "get_from_line U now now_exc content =
     asc ''From '' @ spec_sender (field_value (asc ''from:'') hdr) @
     asc '' '' @ asc (extract_date U now (decode_utf8_replace hdr)) @ [10]"
    using get_from_line_spec[of U now now_exc content] h by simp
next
  assume "first_bracketed raw = Some a"
  then have "angle_search raw = Some a" by (simp add: angle_search_first)
  then show "\<exists>pre post. raw = pre @ 60 # a @ 62 # post \<and> a \<noteq> [] \<and> 62 \<notin> set a"
    by (rule angle_search_Some)
next
  assume "first_bracketed raw = None"
  then have "angle_search raw = None" by (simp add: angle_search_first)
  then show "\<not> (\<exists>pre b post. raw = pre @ 60 # b @ 62 # post \<and> b \<noteq> [] \<and> 62 \<notin> set b)"
    by (rule angle_search_None)
qed


theorem envelope_sender_witness:
  "header_block (''From: Jane Doe <jane@example.com>'' @ [NL] @ ''To: x'' @ [NL, NL] @
       ''From: other@example.org'') (''From: Jane Doe <jane@example.com>'' @ [NL] @ ''To: x'') \<and>
   field_value (asc ''from:'') (''From: Jane Doe <jane@example.com>'' @ [NL] @ ''To: x'')
     = Some (asc ''Jane Doe <jane@example.com>'') \<and>
   first_bracketed (asc ''Jane Doe <jane@example.com>'') = Some (asc ''jane@example.com'') \<and>
   (\<exists>pre post. asc ''Jane Doe <jane@example.com>''
        = pre @ 60 # asc ''jane@example.com'' @ 62 # post) \<and>
   get_from_line example_db example_now example_now
       (''From: Jane Doe <jane@example.com>'' @ [NL] @ ''To: x'' @ [NL, NL] @
        ''From: other@example.org'')
     = asc ''From jane@example.com Wed Nov 04 09:05:07 2026'' @ [10] \<and>
   header_block (''fRoM:jane@example.com'' @ [CR, NL]) (''fRoM:jane@example.com'' @ [CR, NL]) \<and>
   field_value (asc ''from:'') (''fRoM:jane@example.com'' @ [CR, NL])
     = Some (asc ''jane@example.com'') \<and>
   first_bracketed (asc ''jane@example.com'') = None \<and>
   get_from_line example_db example_now example_now (''fRoM:jane@example.com'' @ [CR, NL])
     = asc ''From jane@example.com Wed Nov 04 09:05:07 2026'' @ [10] \<and>
   header_block (''To: x'' @ [NL, NL] @ ''From: other@example.org'') ''To: x'' \<and>
   field_value (asc ''from:'') ''To: x'' = None \<and>
   get_from_line example_db example_now example_now
       (''To: x'' @ [NL, NL] @ ''From: other@example.org'')
     = asc ''From MAILER-DAEMON Wed Nov 04 09:05:07 2026'' @ [10]"
proof -
  let ?m1 = "''From: Jane Doe <jane@example.com>'' @ [NL] @ ''To: x'' @ [NL, NL] @
       ''From: other@example.org''"
  let ?h1 = "''From: Jane Doe <jane@example.com>'' @ [NL] @ ''To: x''"
  let ?m2 = "''fRoM:jane@example.com'' @ [CR, NL]"
  let ?m3 = "''To: x'' @ [NL, NL] @ ''From: other@example.org''"
  have b1: "first_bracketed (asc ''Jane Doe <jane@example.com>'') = Some (asc ''jane@example.com'')"
    by (simp add: asc_simps)
  have b2: "first_bracketed (asc ''jane@example.com'') = None"
    by (simp add: asc_simps)
  have h1: "header_block ?m1 ?h1"
    by (simp add: line_defs NL_def)
  have h2: "header_block ?m2 ?m2"
    by (simp add: line_defs NL_def)
  have h3: "header_block ?m3 ''To: x''"
    by (simp add: line_defs NL_def)
  have v1: "field_value (asc ''from:'') ?h1 = Some (asc ''Jane Doe <jane@example.com>'')"
    by (simp add: line_defs text_defs)
  have v2: "field_value (asc ''from:'') ?m2 = Some (asc ''jane@example.com'')"
    by (simp add: line_defs text_defs)
  have v3: "field_value (asc ''from:'') ''To: x'' = None"
    by (simp add: line_defs text_defs)
  have n1: "field_value (asc ''from:'') ?h1 \<noteq> Some []"
    unfolding v1 by (simp add: asc_simps)
  have n2: "field_value (asc ''from:'') ?m2 \<noteq> Some []"
    unfolding v2 by (simp add: asc_simps)
  have n3: "field_value (asc ''from:'') ''To: x'' \<noteq> Some []"
    unfolding v3 by simp
  have s1: "spec_sender (Some (asc ''Jane Doe <jane@example.com>'')) = asc ''jane@example.com''"
    by (simp add: spec_sender_def asc_simps)
  have s2: "spec_sender (Some (asc ''jane@example.com'')) = asc ''jane@example.com''"
    by (simp add: spec_sender_def asc_simps)
  have s3: "spec_sender None = asc ''MAILER-DAEMON''"
    by (simp add: spec_sender_def)
  have d1: "extract_date example_db example_now (decode_utf8_replace ?h1)
            = ''Wed Nov 04 09:05:07 2026''"
    by (simp add: extract_date_def text_defs strftime_example_now)
  have d2: "extract_date example_db example_now (decode_utf8_replace ?m2)
            = ''Wed Nov 04 09:05:07 2026''"
    by (simp add: extract_date_def text_defs CR_def strftime_example_now)
  have d3: "extract_date example_db example_now (decode_utf8_replace ''To: x'')
            = ''Wed Nov 04 09:05:07 2026''"
    by (simp add: extract_date_def text_defs strftime_example_now)
  note A = envelope_sender [OF h1 n1, of example_db example_now example_now
      "asc ''Jane Doe <jane@example.com>''" "asc ''jane@example.com''"]
  note B = envelope_sender [OF h2 n2, of example_db example_now example_now
      "asc ''jane@example.com''" "[]"]
  note C = envelope_sender [OF h3 n3, of example_db example_now example_now
      "asc ''jane@example.com''" "[]"]
  have 1: "\<exists>pre post. asc ''Jane Doe <jane@example.com>''
        = pre @ 60 # asc ''jane@example.com'' @ 62 # post"
    using A b1 by blast
  have 2: "get_from_line example_db example_now example_now ?m1
     = asc ''From jane@example.com Wed Nov 04 09:05:07 2026'' @ [10]"
    using A unfolding v1 s1 d1 by (simp add: asc_def)
  have 3: "get_from_line example_db example_now example_now ?m2
     = asc ''From jane@example.com Wed Nov 04 09:05:07 2026'' @ [10]"
    using B unfolding v2 s2 d2 by (simp add: asc_def)
  have 4: "get_from_line example_db example_now example_now ?m3
     = asc ''From MAILER-DAEMON Wed Nov 04 09:05:07 2026'' @ [10]"
    using C unfolding v3 s3 d3 by (simp add: asc_def)
  show ?thesis
    using h1 v1 b1 1 2 h2 v2 b2 3 h3 v3 4 by blast
qed

text \<open>
  The claim as stated fails where the value holds an \<open>@\<close> and whitespace but no blank: for
  the header \<open>From: a@b<TAB>c\<close> the first whitespace-delimited token of the value is
  \<open>a@b\<close>, and the sender token of the line is the whole value.
\<close>

theorem envelope_sender_counterexample:
  "first_token (asc ''a@b'' @ [9] @ asc ''c'') = asc ''a@b'' \<and>
   get_from_line example_db example_now example_now (''From: a@b'' @ [CHR 0x09] @ ''c'')
     = asc ''From '' @ (asc ''a@b'' @ [9] @ asc ''c'') @ asc '' Wed Nov 04 09:05:07 2026'' @ [10]"
proof -
  have 1: "first_token (asc ''a@b'' @ [9] @ asc ''c'') = asc ''a@b''"
    by (simp add: first_token_def uspace_def asc_simps)
  have 2: "get_from_line example_db example_now example_now (''From: a@b'' @ [CHR 0x09] @ ''c'')
     = asc ''From '' @ (asc ''a@b'' @ [9] @ asc ''c'') @ asc '' Wed Nov 04 09:05:07 2026'' @ [10]"
    by (simp add: get_from_line_def from_line_try_def extract_sender_def extract_date_def
        text_defs angle_at_eq strftime_example_now mailer_daemon_def)
  show ?thesis using 1 2 by blast
qed

lemma parse_example_date:
  "try_formats U date_formats (take 31 (asc ''Mon, 01 Jan 2024 12:00:00 +0000''))
   = Some \<lparr>year = 2024, month = 1, day = 1, hour = 12, minute = 0, second = 0\<rparr>"
  by (simp add: asc_simps rx_defs strptime_defs ci_eq_def uspace_def)

lemma strftime_example_date:
  "strftime \<lparr>year = 2024, month = 1, day = 1, hour = 12, minute = 0, second = 0\<rparr>
   = ''Mon Jan 01 12:00:00 2024''"
  by (simp add: strftime_defs)

text \<open>
  Claim C5. The claim asks for the clock reading when the message has no \<open>Date\<close>
  header. The code takes as header block the bytes before the first pair of adjacent line
  feeds (line 79), where its comment (line 78) says everything before the first blank
  line. A message whose lines end with a carriage return and a line feed, as the messages
  of the repository's tests do, has no such pair at its blank line: the code takes the
  whole message as header block, and the scan for the \<open>Date\<close> field runs on into the
  body. The message made of the header \<open>To: x\<close>, a blank line and the body
  \<open>Date: Mon, 01 Jan 2024 12:00:00 +0000\<close> has no \<open>Date\<close> header. Written with
  carriage returns, its envelope line carries the date found in the body and not the
  clock reading \<open>Wed Nov 04 09:05:07 2026\<close>; written without them, it carries the clock
  reading.
\<close>

theorem envelope_timestamp_crlf:
  "header_section (''To: x'' @ [CR, NL, CR, NL] @ ''Date: Mon, 01 Jan 2024 12:00:00 +0000'')
     = ''To: x'' @ [CR, NL, CR, NL] @ ''Date: Mon, 01 Jan 2024 12:00:00 +0000'' \<and>
   get_from_line example_db example_now example_now
       (''To: x'' @ [CR, NL, CR, NL] @ ''Date: Mon, 01 Jan 2024 12:00:00 +0000'')
     = asc ''From MAILER-DAEMON Mon Jan 01 12:00:00 2024'' @ [10] \<and>
   strftime example_now = ''Wed Nov 04 09:05:07 2026'' \<and>
   header_section (''To: x'' @ [NL, NL] @ ''Date: Mon, 01 Jan 2024 12:00:00 +0000'') = ''To: x'' \<and>
   get_from_line example_db example_now example_now
       (''To: x'' @ [NL, NL] @ ''Date: Mon, 01 Jan 2024 12:00:00 +0000'')
     = asc ''From MAILER-DAEMON Wed Nov 04 09:05:07 2026'' @ [10]"
proof -
  let ?crlf = "''To: x'' @ [CR, NL, CR, NL] @ ''Date: Mon, 01 Jan 2024 12:00:00 +0000''"
  let ?lf = "''To: x'' @ [NL, NL] @ ''Date: Mon, 01 Jan 2024 12:00:00 +0000''"
  have h1: "header_section ?crlf = ?crlf"
    by (simp add: CR_def NL_def)
  have h2: "header_section ?lf = ''To: x''"
    by (simp add: NL_def)
  have a1: "field_search (asc ''date:'') True (headers_of ?crlf)
      = Some (asc ''Mon, 01 Jan 2024 12:00:00 +0000'')"
    by (simp add: CR_def text_defs)
  have a2: "ustrip (asc ''Mon, 01 Jan 2024 12:00:00 +0000'') = asc ''Mon, 01 Jan 2024 12:00:00 +0000''"
    by (simp add: text_defs)
  have a3: "spec_sender (map_option ustrip (field_search (asc ''from:'') True (headers_of ?crlf)))
      = asc ''MAILER-DAEMON''"
    by (simp add: CR_def text_defs spec_sender_def)
  have a4: "extract_date example_db example_now (headers_of ?crlf) = ''Mon Jan 01 12:00:00 2024''"
    unfolding extract_date_def a1
    using parse_example_date[of example_db] strftime_example_date
    by (simp add: Let_def a2)
  have b1: "field_search (asc ''date:'') True (headers_of ?lf) = None"
    by (simp add: text_defs)
  have b3: "spec_sender (map_option ustrip (field_search (asc ''from:'') True (headers_of ?lf)))
      = asc ''MAILER-DAEMON''"
    by (simp add: text_defs spec_sender_def)
  have b4: "extract_date example_db example_now (headers_of ?lf) = ''Wed Nov 04 09:05:07 2026''"
    unfolding extract_date_def b1
    by (simp add: strftime_example_now)
  have ra: "get_from_line example_db example_now example_now ?crlf
     = asc ''From MAILER-DAEMON Mon Jan 01 12:00:00 2024'' @ [10]"
    unfolding get_from_line_spec a3 a4 by (simp add: asc_def)
  have rb: "get_from_line example_db example_now example_now ?lf
     = asc ''From MAILER-DAEMON Wed Nov 04 09:05:07 2026'' @ [10]"
    unfolding get_from_line_spec b3 b4 by (simp add: asc_def)
  show ?thesis
    using h1 ra strftime_example_now h2 rb by blast
qed

section \<open>The entry written for a message\<close>

lemma spec_sender_props:
  "spec_sender (map_option ustrip (field_search (asc ''from:'') True (headers_of content))) \<noteq> [] \<and>
   10 \<notin> set (spec_sender (map_option ustrip (field_search (asc ''from:'') True (headers_of content)))) \<and>
   list_all scalar (spec_sender (map_option ustrip (field_search (asc ''from:'') True (headers_of content))))"
proof -
  let ?s = "spec_sender (map_option ustrip (field_search (asc ''from:'') True (headers_of content)))"
  from get_from_line_eq[of content example_db example_now example_now, folded headers_of_def]
  obtain sender where
    s: "sender \<noteq> []" "10 \<notin> set sender" "list_all scalar sender" and
    e: "get_from_line example_db example_now example_now content
          = asc ''From '' @ sender @ asc '' '' @
            asc (extract_date example_db example_now (headers_of content)) @ [10]"
    by blast
  from e get_from_line_spec[of example_db example_now example_now content]
  have "sender = ?s" by simp
  with s show ?thesis by simp
qed

lemma encode_envelope_spec:
  assumes "valid_datetime now"
  shows "\<exists>token. encode_utf8 (spec_sender (map_option ustrip
                     (field_search (asc ''from:'') True (headers_of content)))) = Some token \<and>
           token \<noteq> [] \<and> NL \<notin> set token \<and>
           is_timestamp (extract_date U now (headers_of content)) \<and>
           encode_utf8 (get_from_line U now now_exc content)
             = Some (''From '' @ token @ '' '' @ extract_date U now (headers_of content) @ [NL])"
proof -
  let ?stamp = "extract_date U now (headers_of content)"
  let ?s = "spec_sender (map_option ustrip (field_search (asc ''from:'') True (headers_of content)))"
  from spec_sender_props[of content] have s: "?s \<noteq> []" "10 \<notin> set ?s" "list_all scalar ?s"
    by simp_all
  from encode_scalar[OF s(3)] obtain token where t: "encode_utf8 ?s = Some token" by blast
  have tok: "token \<noteq> []" "NL \<notin> set token"
    using encode_nonempty[OF t s(1)] encode_no_nl[OF t s(2)] by simp_all
  from extract_date_timestamp[OF assms, of U "headers_of content"]
  have st: "is_timestamp ?stamp" "ascii_str ?stamp" by simp_all
  have f: "encode_utf8 (asc ''From '') = Some ''From ''" "encode_utf8 (asc '' '') = Some '' ''"
    by (rule encode_ascii_str, simp add: ascii_str_def NL_def)+
  have n: "encode_utf8 [10] = Some [NL]"
    using encode_asc[of "[NL]"] by (simp add: asc_def NL_def)
  have "encode_utf8 (get_from_line U now now_exc content)
          = Some (''From '' @ token @ '' '' @ ?stamp @ [NL])"
    unfolding get_from_line_spec
    by (simp only: encode_utf8_append f t n encode_ascii_str[OF st(2)] option.case)
  then show ?thesis using t tok st(1) by blast
qed

text \<open>
  Claim C3, amended. For every decoded message that is not empty, the loop appends to what
  it has written exactly: the envelope line \<open>From \<close>, a sender token that is not empty and
  holds no line terminator, a blank, a time in the fixed layout (weekday, month, day of
  two digits, \<open>HH:MM:SS\<close>, year of four digits) and a line terminator; then the escaped
  content; then a line terminator if the escaped content does not end with one; then one
  more line terminator, the blank line. The count grows by one. The loop adds nothing
  else: at the end of the list the state is returned as it is. Clock readings are dates
  and times of the library, hence \<open>valid_datetime\<close>.
\<close>

theorem entry_appended:
  assumes "parse_emlx fs p = Some content" and "content \<noteq> []" and "valid_datetime (clk t)"
  shows "\<exists>token. encode_utf8 (spec_sender (map_option ustrip
                     (field_search (asc ''from:'') True (headers_of content)))) = Some token \<and>
           token \<noteq> [] \<and> NL \<notin> set token \<and>
           is_timestamp (extract_date U (clk t) (headers_of content)) \<and>
           convert_loop U fs clk (p # rest) (written, count, t)
             = convert_loop U fs clk rest
                 (written @
                    ''From '' @ token @ '' '' @ extract_date U (clk t) (headers_of content) @ [NL] @
                    escape_from_lines content @
                    (if endswith (escape_from_lines content) [NL] then [] else [NL]) @ [NL],
                  count + 1, t + 1) \<and>
           convert_loop U fs clk [] (written, count, t) = Inr (written, count, t)"
proof -
  from encode_envelope_spec[OF assms(3), of content U "clk (t + 1)"] obtain token where
    t: "encode_utf8 (spec_sender (map_option ustrip
           (field_search (asc ''from:'') True (headers_of content)))) = Some token"
       "token \<noteq> []" "NL \<notin> set token"
       "is_timestamp (extract_date U (clk t) (headers_of content))" and
    e: "encode_utf8 (get_from_line U (clk t) (clk (t + 1)) content)
          = Some (''From '' @ token @ '' '' @ extract_date U (clk t) (headers_of content) @ [NL])"
    by blast
  from convert_loop_step[OF assms(1,2) e, of rest written count]
  have "convert_loop U fs clk (p # rest) (written, count, t)
             = convert_loop U fs clk rest
                 (written @
                    ''From '' @ token @ '' '' @ extract_date U (clk t) (headers_of content) @ [NL] @
                    escape_from_lines content @
                    (if endswith (escape_from_lines content) [NL] then [] else [NL]) @ [NL],
                  count + 1, t + 1)"
    by simp
  then show ?thesis using t by auto
qed

text \<open>
  The claim as stated fails for a message that decodes to the empty byte string: the
  decoding succeeds, and no entry is appended.
\<close>

theorem entry_appended_counterexample:
  "parse_emlx example_fs (asc ''/m/In.mbox/2.emlx'') = Some [] \<and>
   convert_loop example_db example_fs (\<lambda>k. example_now) [asc ''/m/In.mbox/2.emlx''] ([], 0, 0)
     = Inr ([], 0, 0)"
proof -
  have r: "read_file example_fs (asc ''/m/In.mbox/2.emlx'') = Some (''0'' @ [NL] @ ''<plist/>'')"
    by (simp add: fs_defs example_fs_def asc_simps)
  have p: "parse_emlx_bytes (''0'' @ [NL] @ ''<plist/>'') = Some []"
    by (simp add: parse_emlx_bytes_def declared_count_def decode_ascii_def py_int_def py_strip_def
        ascii_space_def is_digit_def digit_val_def py_slice_def NL_def)
  have 1: "parse_emlx example_fs (asc ''/m/In.mbox/2.emlx'') = Some []"
    using r p by (simp add: parse_emlx_def)
  then show ?thesis by simp
qed

theorem entry_appended_witness:
  "parse_emlx example_fs (asc ''/m/In.mbox/3.emlx'') = Some ''hi'' \<and>
   valid_datetime example_now \<and>
   is_timestamp ''Wed Nov 04 09:05:07 2026'' \<and>
   convert_loop example_db example_fs (\<lambda>k. example_now) [asc ''/m/In.mbox/3.emlx''] ([], 0, 0)
     = Inr (''From MAILER-DAEMON Wed Nov 04 09:05:07 2026'' @ [NL] @ ''hi'' @ [NL] @ [NL], 1, 1)"
proof -
  have r: "read_file example_fs (asc ''/m/In.mbox/3.emlx'') = Some (''2'' @ [NL] @ ''hi<plist/>'')"
    by (simp add: fs_defs example_fs_def asc_simps)
  have p: "parse_emlx_bytes (''2'' @ [NL] @ ''hi<plist/>'') = Some ''hi''"
    by (simp add: parse_emlx_bytes_def declared_count_def decode_ascii_def py_int_def py_strip_def
        ascii_space_def is_digit_def digit_val_def py_slice_def NL_def)
  have 1: "parse_emlx example_fs (asc ''/m/In.mbox/3.emlx'') = Some ''hi''"
    using r p by (simp add: parse_emlx_def)
  have 2: "''hi'' \<noteq> []" by simp
  have 3: "valid_datetime ((\<lambda>k. example_now) (0::nat))" by (simp add: valid_example_now)
  have s: "spec_sender (map_option ustrip (field_search (asc ''from:'') True (headers_of ''hi'')))
      = asc ''MAILER-DAEMON''"
    by (simp add: text_defs spec_sender_def)
  have d: "extract_date example_db example_now (headers_of ''hi'') = ''Wed Nov 04 09:05:07 2026''"
    by (simp add: extract_date_def text_defs strftime_example_now)
  have m: "encode_utf8 (asc ''MAILER-DAEMON'') = Some ''MAILER-DAEMON''"
    by (rule encode_ascii_str) (simp add: ascii_str_def NL_def)
  have esc: "escape_from_lines ''hi'' = ''hi''"
    by (simp add: escape_from_lines_def startswith_def NL_def)
  from entry_appended [OF 1 2 3, of example_db "[]" "[]" 0]
  obtain token where
    t: "encode_utf8 (asc ''MAILER-DAEMON'') = Some token" and
    ts: "is_timestamp ''Wed Nov 04 09:05:07 2026''" and
    c: "convert_loop example_db example_fs (\<lambda>k. example_now) [asc ''/m/In.mbox/3.emlx''] ([], 0, 0)
          = convert_loop example_db example_fs (\<lambda>k. example_now) []
              ([] @ ''From '' @ token @ '' '' @ ''Wed Nov 04 09:05:07 2026'' @ [NL] @ ''hi'' @
                 (if endswith ''hi'' [NL] then [] else [NL]) @ [NL], 0 + 1, 0 + 1)"
    unfolding s d esc by blast
  from t m have tok: "token = ''MAILER-DAEMON''" by simp
  have "convert_loop example_db example_fs (\<lambda>k. example_now) [asc ''/m/In.mbox/3.emlx''] ([], 0, 0)
     = Inr (''From MAILER-DAEMON Wed Nov 04 09:05:07 2026'' @ [NL] @ ''hi'' @ [NL] @ [NL], 1, 1)"
    unfolding c tok by (simp add: endswith_def NL_def)
  then show ?thesis using 1 valid_example_now ts by blast
qed

section \<open>Two runs over the same folder\<close>

lemma dated_clock:
  "dated U content \<Longrightarrow>
   extract_date U now (headers_of content) = extract_date U now' (headers_of content)"
  by (auto simp: dated_def extract_date_def headers_of_def Let_def split: option.splits)

lemma dated_from_line:
  "dated U content \<Longrightarrow>
   get_from_line U now now_exc content = get_from_line U now' now_exc' content"
  using dated_clock[of U content now now'] by (simp add: get_from_line_spec)

lemma convert_loop_clock:
  assumes "\<forall>p \<in> set ps. \<forall>content. parse_emlx fs p = Some content \<and> content \<noteq> [] \<longrightarrow> dated U content"
  shows "\<exists>w c ta tb. convert_loop U fs clk1 ps (written, count, t1) = Inr (w, c, ta) \<and>
                      convert_loop U fs clk2 ps (written, count, t2) = Inr (w, c, tb)"
  using assms
proof (induction ps arbitrary: written count t1 t2)
  case Nil
  then show ?case by simp
next
  case (Cons p ps)
  then have rest: "\<forall>p \<in> set ps. \<forall>content. parse_emlx fs p = Some content \<and> content \<noteq> [] \<longrightarrow> dated U content"
    by simp
  show ?case
  proof (cases "parse_emlx fs p = None \<or> parse_emlx fs p = Some []")
    case True
    show ?thesis unfolding convert_loop_skip[OF True] by (rule Cons.IH[OF rest])
  next
    case False
    then obtain content where c: "parse_emlx fs p = Some content" "content \<noteq> []" by auto
    then have d: "dated U content" using Cons.prems by simp
    from encode_from_line obtain line where
      l1: "encode_utf8 (get_from_line U (clk1 t1) (clk1 (t1 + 1)) content) = Some line" by blast
    then have l2: "encode_utf8 (get_from_line U (clk2 t2) (clk2 (t2 + 1)) content) = Some line"
      using dated_from_line[OF d, of "clk1 t1" "clk1 (t1 + 1)" "clk2 t2" "clk2 (t2 + 1)"] by simp
    show ?thesis
      unfolding convert_loop_step[OF c l1] convert_loop_step[OF c l2]
      by (rule Cons.IH[OF rest])
  qed
qed

text \<open>
  Claim C6, amended. Two conversions of the same folder over the same files, with whatever
  clocks, return the same count and leave the same output directory, hence the same bytes
  in the output file, provided that every message that is written has a \<open>Date\<close> field
  that parses; the containers are taken in lexicographic order of their paths.
\<close>

theorem conversion_reproducible:
  assumes "\<forall>p \<in> set (find_emlx_files fs source_dir).
             \<forall>content. parse_emlx fs p = Some content \<and> content \<noteq> [] \<longrightarrow> dated U content"
  shows "\<exists>count out' ta tb.
           convert_folder U fs clk1 source_dir mbox_name out t1 = Inr (count, out', ta) \<and>
           convert_folder U fs clk2 source_dir mbox_name out t2 = Inr (count, out', tb) \<and>
           sorted (find_emlx_files fs source_dir)"
proof -
  have s: "sorted (find_emlx_files fs source_dir)"
    by (simp add: find_emlx_files_def)
  show ?thesis
  proof (cases "find_emlx_files fs source_dir = []")
    case True
    then show ?thesis using s by (simp add: convert_folder_def)
  next
    case False
    from convert_loop_clock[OF assms, of clk1 "[]" 0 t1 clk2 t2] obtain w c ta tb where
      "convert_loop U fs clk1 (find_emlx_files fs source_dir) ([], 0, t1) = Inr (w, c, ta)"
      "convert_loop U fs clk2 (find_emlx_files fs source_dir) ([], 0, t2) = Inr (w, c, tb)"
      by blast
    then show ?thesis using False s by (simp add: convert_folder_def)
  qed
qed

text \<open>
  The claim as stated fails for a message without a \<open>Date\<close> field: its envelope line
  carries the clock reading, and two runs one second apart write different bytes.
\<close>

theorem conversion_reproducible_counterexample:
  "(case convert_folder example_db example_fs (\<lambda>k. example_now)
           (asc ''/m/In.mbox'') (asc ''In.mbox'') Map.empty 0 of
      Inl e \<Rightarrow> None
    | Inr (count, out', t') \<Rightarrow> out' (asc ''In.mbox''))
     = Some (''From MAILER-DAEMON Wed Nov 04 09:05:07 2026'' @ [NL] @ ''hi'' @ [NL] @ [NL]) \<and>
   (case convert_folder example_db example_fs (\<lambda>k. example_later)
           (asc ''/m/In.mbox'') (asc ''In.mbox'') Map.empty 0 of
      Inl e \<Rightarrow> None
    | Inr (count, out', t') \<Rightarrow> out' (asc ''In.mbox''))
     = Some (''From MAILER-DAEMON Wed Nov 04 09:05:08 2026'' @ [NL] @ ''hi'' @ [NL] @ [NL])"
proof -
  have fl: "find_emlx_files example_fs (asc ''/m/In.mbox'')
      = [asc ''/m/In.mbox/1.emlx'', asc ''/m/In.mbox/2.emlx'', asc ''/m/In.mbox/3.emlx'']"
    by (simp add: fs_defs example_fs_def asc_simps)
  have p1: "parse_emlx example_fs (asc ''/m/In.mbox/1.emlx'') = None"
    by (simp add: fs_defs example_fs_def asc_simps parse_emlx_bytes_def NL_def)
  have p2: "parse_emlx example_fs (asc ''/m/In.mbox/2.emlx'') = Some []"
    by (simp add: fs_defs example_fs_def asc_simps parse_emlx_bytes_def declared_count_def
        decode_ascii_def py_int_def py_strip_def ascii_space_def is_digit_def digit_val_def
        py_slice_def NL_def)
  have p3: "parse_emlx example_fs (asc ''/m/In.mbox/3.emlx'') = Some ''hi''"
    by (simp add: fs_defs example_fs_def asc_simps parse_emlx_bytes_def declared_count_def
        decode_ascii_def py_int_def py_strip_def ascii_space_def is_digit_def digit_val_def
        py_slice_def NL_def)
  have g: "get_from_line example_db now now_exc ''hi''
      = asc ''From MAILER-DAEMON '' @ asc (strftime now) @ [10]" for now now_exc
    by (simp add: get_from_line_spec spec_sender_def extract_date_def text_defs)
  have enc: "encode_utf8 (asc ''From MAILER-DAEMON '' @ asc s @ [10])
      = Some (''From MAILER-DAEMON '' @ s @ [NL])" if "ascii_str s" for s
  proof -
    have "encode_utf8 (asc (''From MAILER-DAEMON '' @ s @ [NL])) = Some (''From MAILER-DAEMON '' @ s @ [NL])"
      using that by (intro encode_asc) (auto simp: ascii_str_def list_all_iff NL_def)
    then show ?thesis by (simp add: asc_def NL_def)
  qed
  have esc: "escape_from_lines ''hi'' = ''hi''"
    by (simp add: escape_from_lines_def startswith_def NL_def)
  have loop: "convert_loop example_db example_fs (\<lambda>k. now)
        [asc ''/m/In.mbox/1.emlx'', asc ''/m/In.mbox/2.emlx'', asc ''/m/In.mbox/3.emlx''] ([], 0, 0)
      = Inr (''From MAILER-DAEMON '' @ s @ [NL] @ ''hi'' @ [NL] @ [NL], 1, 1)"
    if "strftime now = s" "ascii_str s" for now s
    using p1 p2 p3 g[of now now] enc[OF that(2)] that(1) esc from_line_try_Some
    by (simp add: Let_def endswith_def NL_def)
  have a1: "ascii_str ''Wed Nov 04 09:05:07 2026''" "ascii_str ''Wed Nov 04 09:05:08 2026''"
    by (simp_all add: ascii_str_def NL_def)
  show ?thesis
    using loop[OF strftime_example_now a1(1)] loop[OF strftime_example_later a1(2)] fl
    by (simp add: convert_folder_def)
qed

theorem conversion_reproducible_witness:
  "find_emlx_files dated_fs (asc ''/d/In.mbox'') = [asc ''/d/In.mbox/1.emlx''] \<and>
   parse_emlx dated_fs (asc ''/d/In.mbox/1.emlx'') = Some dated_msg \<and>
   dated example_db dated_msg \<and>
   (\<exists>count out' ta tb.
      convert_folder example_db dated_fs (\<lambda>k. example_now)
          (asc ''/d/In.mbox'') (asc ''In.mbox'') Map.empty 0 = Inr (count, out', ta) \<and>
      convert_folder example_db dated_fs (\<lambda>k. example_later)
          (asc ''/d/In.mbox'') (asc ''In.mbox'') Map.empty 0 = Inr (count, out', tb) \<and>
      sorted (find_emlx_files dated_fs (asc ''/d/In.mbox'')))"
proof -
  have e2: "find_emlx_files dated_fs (asc ''/d/In.mbox'') = [asc ''/d/In.mbox/1.emlx'']"
    by (simp add: fs_defs dated_fs_def asc_simps)
  have e3: "parse_emlx dated_fs (asc ''/d/In.mbox/1.emlx'') = Some dated_msg"
    by (simp add: fs_defs dated_fs_def asc_simps parse_emlx_bytes_def declared_count_def
        decode_ascii_def py_int_def py_strip_def ascii_space_def is_digit_def digit_val_def
        py_slice_def NL_def dated_msg_def)
  have e4: "dated example_db dated_msg"
    by (simp add: dated_def dated_msg_def text_defs rx_defs strptime_defs example_db_def)
  have h: "\<forall>p \<in> set (find_emlx_files dated_fs (asc ''/d/In.mbox'')).
             \<forall>content. parse_emlx dated_fs p = Some content \<and> content \<noteq> [] \<longrightarrow>
               dated example_db content"
    using e3 e4 by (simp add: e2)
  show ?thesis
    using conversion_reproducible [OF h, of "\<lambda>k. example_now" "asc ''In.mbox''" Map.empty 0
        "\<lambda>k. example_later" 0] e2 e3 e4
    by blast
qed

section \<open>Folders without messages\<close>

lemma convert_loop_all_skip:
  "\<forall>p \<in> set ps. parse_emlx fs p = None \<or> parse_emlx fs p = Some [] \<Longrightarrow>
   convert_loop U fs clk ps st = Inr st"
proof (induction ps)
  case Nil
  then show ?case by simp
next
  case (Cons p ps)
  then have "parse_emlx fs p = None \<or> parse_emlx fs p = Some []" by simp
  from convert_loop_skip[OF this] Cons show ?case by simp
qed

lemma convert_folder_zero:
  assumes "\<forall>p \<in> set (find_emlx_files fs fp). parse_emlx fs p = None \<or> parse_emlx fs p = Some []"
  shows "\<exists>out'. convert_folder U fs clk fp name out t = Inr (0, out', t) \<and>
               out'(name := None) = out(name := None)"
  using convert_loop_all_skip[OF assms, of U clk "([], 0, t)"]
  by (auto simp: convert_folder_def Let_def)

lemma convert_folder_total:
  "\<exists>k out' t'. convert_folder U fs clk fp name out t = Inr (k, out', t') \<and>
      (\<forall>n. n \<noteq> name \<longrightarrow> out' n = out n) \<and>
      (\<forall>out2. \<exists>o2. convert_folder U fs clk fp name out2 t = Inr (k, o2, t'))"
proof (cases "find_emlx_files fs fp = []")
  case True
  then show ?thesis by (simp add: convert_folder_def)
next
  case False
  from convert_loop_total[of U fs clk "find_emlx_files fs fp" "([], 0, t)"]
  obtain w c t' where "convert_loop U fs clk (find_emlx_files fs fp) ([], 0, t) = Inr (w, c, t')"
    by (metis prod_cases3)
  then show ?thesis using False by (simp add: convert_folder_def)
qed

lemma account_loop_Cons:
  "account_loop U fs clk sd (u # rest) st =
     (case account_loop U fs clk sd [u] st of Inl e \<Rightarrow> Inl e
      | Inr st' \<Rightarrow> account_loop U fs clk sd rest st')"
proof -
  obtain fp fn where u: "u = (fp, fn)" by (cases u)
  obtain out counts t where st: "st = (out, counts, t)" by (metis prod_cases3)
  show ?thesis unfolding u st
    by (simp add: Let_def split: sum.splits prod.splits)
qed

lemma account_loop_append:
  "account_loop U fs clk sd (a @ b) st =
     (case account_loop U fs clk sd a st of Inl e \<Rightarrow> Inl e
      | Inr st' \<Rightarrow> account_loop U fs clk sd b st')"
proof (induction a arbitrary: st)
  case Nil
  then show ?case by simp
next
  case (Cons u a)
  show ?case
    by (simp only: append_Cons account_loop_Cons[of U fs clk sd u "a @ b"]
        account_loop_Cons[of U fs clk sd u a] Cons.IH)
       (simp split: sum.splits)
qed

lemma account_step_total:
  "\<exists>out' counts' t'. account_loop U fs clk sd [(fp, fn)] (out, counts, t) = Inr (out', counts', t') \<and>
      (\<forall>n. n \<noteq> output_name U sd fp fn @ asc ''.mbox'' \<longrightarrow> out' n = out n) \<and>
      (\<forall>out2. \<exists>o2. account_loop U fs clk sd [(fp, fn)] (out2, counts, t) = Inr (o2, counts', t'))"
proof -
  let ?name = "output_name U sd fp fn @ asc ''.mbox''"
  from convert_folder_total[of U fs clk fp ?name out t] obtain k out' t' where
    c: "convert_folder U fs clk fp ?name out t = Inr (k, out', t')" and
    u: "\<forall>n. n \<noteq> ?name \<longrightarrow> out' n = out n" and
    i: "\<forall>out2. \<exists>o2. convert_folder U fs clk fp ?name out2 t = Inr (k, o2, t')"
    by blast
  have 1: "\<exists>oa c. account_loop U fs clk sd [(fp, fn)] (out, counts, t) = Inr (oa, c, t') \<and>
       (\<forall>n. n \<noteq> ?name \<longrightarrow> oa n = out n) \<and>
       c = (if k > 0 then counts(output_name U sd fp fn \<mapsto> k) else counts)"
    using c u by (simp add: Let_def)
  have 2: "\<exists>o2. account_loop U fs clk sd [(fp, fn)] (out2, counts, t)
              = Inr (o2, if k > 0 then counts(output_name U sd fp fn \<mapsto> k) else counts, t')" for out2
  proof -
    from i obtain o2 where "convert_folder U fs clk fp ?name out2 t = Inr (k, o2, t')" by blast
    then show ?thesis by (simp add: Let_def)
  qed
  from 1 2 show ?thesis by blast
qed

lemma account_loop_total:
  "\<exists>out' counts' t'. account_loop U fs clk sd us (out, counts, t) = Inr (out', counts', t') \<and>
      (\<forall>n. (\<forall>(fp, fn) \<in> set us. output_name U sd fp fn @ asc ''.mbox'' \<noteq> n) \<longrightarrow> out' n = out n) \<and>
      (\<forall>out2. \<exists>o2. account_loop U fs clk sd us (out2, counts, t) = Inr (o2, counts', t'))"
proof (induction us arbitrary: out counts t)
  case Nil
  then show ?case by simp
next
  case (Cons u us)
  obtain fp fn where u: "u = (fp, fn)" by (cases u)
  from account_step_total[of U fs clk sd fp fn out counts t] obtain o1 c1 t1 where
    s: "account_loop U fs clk sd [(fp, fn)] (out, counts, t) = Inr (o1, c1, t1)" and
    su: "\<forall>n. n \<noteq> output_name U sd fp fn @ asc ''.mbox'' \<longrightarrow> o1 n = out n" and
    si: "\<forall>out2. \<exists>o2. account_loop U fs clk sd [(fp, fn)] (out2, counts, t) = Inr (o2, c1, t1)"
    by blast
  from Cons.IH[of o1 c1 t1] obtain o' c' t' where
    r: "account_loop U fs clk sd us (o1, c1, t1) = Inr (o', c', t')" and
    ru: "\<forall>n. (\<forall>(fp, fn) \<in> set us. output_name U sd fp fn @ asc ''.mbox'' \<noteq> n) \<longrightarrow> o' n = o1 n" and
    ri: "\<forall>out2. \<exists>o2. account_loop U fs clk sd us (out2, c1, t1) = Inr (o2, c', t')"
    by blast
  have 1: "account_loop U fs clk sd (u # us) (out, counts, t) = Inr (o', c', t')"
    unfolding u by (subst account_loop_Cons) (simp only: s r sum.case)
  have 2: "\<forall>n. (\<forall>(fp, fn) \<in> set (u # us). output_name U sd fp fn @ asc ''.mbox'' \<noteq> n) \<longrightarrow> o' n = out n"
    using su ru u by auto
  have 3: "\<exists>o2. account_loop U fs clk sd (u # us) (out2, counts, t) = Inr (o2, c', t')" for out2
  proof -
    from si obtain oa where a: "account_loop U fs clk sd [(fp, fn)] (out2, counts, t) = Inr (oa, c1, t1)"
      by blast
    from ri obtain ob where "account_loop U fs clk sd us (oa, c1, t1) = Inr (ob, c', t')" by blast
    then have "account_loop U fs clk sd ((fp, fn) # us) (out2, counts, t) = Inr (ob, c', t')"
      by (subst account_loop_Cons) (simp only: a sum.case)
    then show ?thesis unfolding u by blast
  qed
  from 1 2 3 show ?case by blast
qed

lemma account_step_zero:
  assumes "\<forall>p \<in> set (find_emlx_files fs fp). parse_emlx fs p = None \<or> parse_emlx fs p = Some []"
  shows "account_loop U fs clk sd [(fp, fn)] (out, counts, t)
         = Inr (out(output_name U sd fp fn @ asc ''.mbox'' := None), counts, t)"
proof -
  from convert_folder_zero[OF assms, of U clk "output_name U sd fp fn @ asc ''.mbox''" out t]
  obtain out' where "convert_folder U fs clk fp (output_name U sd fp fn @ asc ''.mbox'') out t = Inr (0, out', t)"
    "out'(output_name U sd fp fn @ asc ''.mbox'' := None) = out(output_name U sd fp fn @ asc ''.mbox'' := None)"
    by blast
  then show ?thesis by (simp add: Let_def)
qed

text \<open>
  Claim C9, amended. Take a folder in which no container decodes to a message that is not
  empty, and suppose that no folder handled after it has the same output name. Then the
  account conversion ends without an exception, its output directory holds no file under
  the folder's output name (a file left there before is removed), and the returned counts
  are those of a conversion that leaves the folder out: it contributes no entry.
\<close>

theorem empty_folder_elided:
  assumes "mbox_folders fs source_dir = pre @ (folder_path, folder_name) # post"
    and "\<forall>p \<in> set (find_emlx_files fs folder_path). parse_emlx fs p = None \<or> parse_emlx fs p = Some []"
    and "\<forall>(fp, fn) \<in> set post.
           output_name U source_dir fp fn \<noteq> output_name U source_dir folder_path folder_name"
  shows "\<exists>counts out' t'.
           convert_account U fs clk source_dir out t = Inr (counts, out', t') \<and>
           out' (output_name U source_dir folder_path folder_name @ asc ''.mbox'') = None \<and>
           (\<exists>out''. account_loop U fs clk source_dir (pre @ post) (out, Map.empty, t)
                      = Inr (out'', counts, t'))"
proof -
  let ?name = "output_name U source_dir folder_path folder_name @ asc ''.mbox''"
  let ?L = "account_loop U fs clk source_dir"
  from account_loop_total[of U fs clk source_dir pre out Map.empty t] obtain o1 c1 t1 where
    p: "?L pre (out, Map.empty, t) = Inr (o1, c1, t1)" by blast
  have z: "?L [(folder_path, folder_name)] (o1, c1, t1) = Inr (o1(?name := None), c1, t1)"
    using assms(2) by (rule account_step_zero)
  from account_loop_total[of U fs clk source_dir post "o1(?name := None)" c1 t1] obtain o2 c2 t2 where
    q: "?L post (o1(?name := None), c1, t1) = Inr (o2, c2, t2)" and
    qu: "\<forall>n. (\<forall>(fp, fn) \<in> set post. output_name U source_dir fp fn @ asc ''.mbox'' \<noteq> n) \<longrightarrow>
           o2 n = (o1(?name := None)) n" and
    qi: "\<forall>out2. \<exists>o3. ?L post (out2, c1, t1) = Inr (o3, c2, t2)"
    by blast
  have "?L (pre @ (folder_path, folder_name) # post) (out, Map.empty, t) = Inr (o2, c2, t2)"
    by (subst account_loop_append, simp only: p sum.case, subst account_loop_Cons)
       (simp only: z q sum.case)
  then have 1: "convert_account U fs clk source_dir out t = Inr (c2, o2, t2)"
    using assms(1) by (simp add: convert_account_def)
  have "\<forall>(fp, fn) \<in> set post. output_name U source_dir fp fn @ asc ''.mbox'' \<noteq> ?name"
    using assms(3) by auto
  then have 2: "o2 ?name = None" using qu by simp
  from qi obtain o3 where "?L post (o1, c1, t1) = Inr (o3, c2, t2)" by blast
  then have 3: "?L (pre @ post) (out, Map.empty, t) = Inr (o3, c2, t2)"
    by (subst account_loop_append) (simp only: p sum.case)
  from 1 2 3 show ?thesis by blast
qed


lemmas name_defs = mbox_folders_def output_name_def relpath_def safe_chars_def no_brackets_def
  is_word_def startswith_def

lemmas decode_defs = parse_emlx_bytes_def declared_count_def decode_ascii_def py_int_def
  py_strip_def ascii_space_def is_digit_def digit_val_def py_slice_def

lemma loop_hi:
  assumes "parse_emlx fs p = Some ''hi''" and "strftime (clk t) = s" and "ascii_str s"
  shows "convert_loop example_db fs clk [p] (w, c, t)
         = Inr (w @ ''From MAILER-DAEMON '' @ s @ [NL] @ ''hi'' @ [NL, NL], c + 1, t + 1)"
proof -
  have g: "get_from_line example_db (clk t) (clk (t + 1)) ''hi''
      = asc ''From MAILER-DAEMON '' @ asc s @ [10]"
    using assms(2) by (simp add: get_from_line_spec spec_sender_def extract_date_def text_defs)
  have "encode_utf8 (asc (''From MAILER-DAEMON '' @ s @ [NL])) = Some (''From MAILER-DAEMON '' @ s @ [NL])"
    using assms(3) by (intro encode_asc) (auto simp: ascii_str_def list_all_iff NL_def)
  then have enc: "encode_utf8 (asc ''From MAILER-DAEMON '' @ asc s @ [10])
      = Some (''From MAILER-DAEMON '' @ s @ [NL])"
    by (simp add: asc_def NL_def)
  have esc: "escape_from_lines ''hi'' = ''hi''"
    by (simp add: escape_from_lines_def startswith_def NL_def)
  have 2: "''hi'' \<noteq> []" by simp
  show ?thesis
    unfolding convert_loop_step[OF assms(1) 2 enc[folded g]] esc
    by (simp add: endswith_def NL_def)
qed

lemma ascii_example_now: "ascii_str ''Wed Nov 04 09:05:07 2026''"
  by (simp add: ascii_str_def NL_def)

text \<open>
  The claim as stated fails when two folders share an output name: \<open>a b.mbox\<close> and
  \<open>a_b.mbox\<close> both map to \<open>a_b\<close>; the first holds no container, the second holds one
  message, and at the end the output file \<open>a_b.mbox\<close>, the output file of both, exists.
\<close>

theorem empty_folder_elided_counterexample:
  "mbox_folders collide_fs (asc ''/m'')
     = [(asc ''/m/a b.mbox'', asc ''a b''), (asc ''/m/a_b.mbox'', asc ''a_b'')] \<and>
   find_emlx_files collide_fs (asc ''/m/a b.mbox'') = [] \<and>
   output_name example_db (asc ''/m'') (asc ''/m/a b.mbox'') (asc ''a b'') = asc ''a_b'' \<and>
   (case convert_account example_db collide_fs (\<lambda>k. example_now) (asc ''/m'') Map.empty 0 of
      Inl e \<Rightarrow> None
    | Inr (counts, out', t') \<Rightarrow> out' (asc ''a_b'' @ asc ''.mbox''))
     = Some (''From MAILER-DAEMON Wed Nov 04 09:05:07 2026'' @ [NL] @ ''hi'' @ [NL, NL])"
proof -
  have mf: "mbox_folders collide_fs (asc ''/m'')
     = [(asc ''/m/a b.mbox'', asc ''a b''), (asc ''/m/a_b.mbox'', asc ''a_b'')]"
    by (simp add: name_defs fs_defs collide_fs_def asc_simps)
  have n1: "output_name example_db (asc ''/m'') (asc ''/m/a b.mbox'') (asc ''a b'') = asc ''a_b''"
    by (simp add: name_defs fs_defs asc_simps example_db_def)
  have n2: "output_name example_db (asc ''/m'') (asc ''/m/a_b.mbox'') (asc ''a_b'') = asc ''a_b''"
    by (simp add: name_defs fs_defs asc_simps example_db_def)
  have f1: "find_emlx_files collide_fs (asc ''/m/a b.mbox'') = []"
    by (simp add: fs_defs collide_fs_def asc_simps)
  have f2: "find_emlx_files collide_fs (asc ''/m/a_b.mbox'') = [asc ''/m/a_b.mbox/1.emlx'']"
    by (simp add: fs_defs collide_fs_def asc_simps)
  have p: "parse_emlx collide_fs (asc ''/m/a_b.mbox/1.emlx'') = Some ''hi''"
    by (simp add: fs_defs collide_fs_def asc_simps decode_defs NL_def)
  have c1: "convert_folder example_db collide_fs (\<lambda>k. example_now) (asc ''/m/a b.mbox'') n out t
      = Inr (0, out, t)" for n out t
    by (simp add: convert_folder_def f1)
  have c2: "convert_folder example_db collide_fs (\<lambda>k. example_now) (asc ''/m/a_b.mbox'') n out 0
      = Inr (1, out(n \<mapsto> ''From MAILER-DAEMON Wed Nov 04 09:05:07 2026'' @ [NL] @ ''hi'' @ [NL, NL]), 1)"
    for n out
    using loop_hi[where clk = "\<lambda>k. example_now" and t = 0 and w = "[]" and c = 0,
        OF p strftime_example_now ascii_example_now]
    by (simp add: convert_folder_def f2)
  have "(case convert_account example_db collide_fs (\<lambda>k. example_now) (asc ''/m'') Map.empty 0 of
      Inl e \<Rightarrow> None
    | Inr (counts, out', t') \<Rightarrow> out' (asc ''a_b'' @ asc ''.mbox''))
     = Some (''From MAILER-DAEMON Wed Nov 04 09:05:07 2026'' @ [NL] @ ''hi'' @ [NL, NL])"
    by (simp add: convert_account_def mf n1 n2 c1 c2 Let_def)
  then show ?thesis using mf f1 n1 by blast
qed

theorem empty_folder_elided_witness:
  "mbox_folders elide_fs (asc ''/m'')
     = [] @ (asc ''/m/Junk.mbox'', asc ''Junk'') # [(asc ''/m/In.mbox'', asc ''In'')] \<and>
   find_emlx_files elide_fs (asc ''/m/Junk.mbox'') = [asc ''/m/Junk.mbox/1.emlx''] \<and>
   parse_emlx elide_fs (asc ''/m/Junk.mbox/1.emlx'') = None \<and>
   output_name example_db (asc ''/m'') (asc ''/m/Junk.mbox'') (asc ''Junk'') = asc ''Junk'' \<and>
   output_name example_db (asc ''/m'') (asc ''/m/In.mbox'') (asc ''In'') = asc ''In'' \<and>
   (\<exists>counts out' t'.
      convert_account example_db elide_fs (\<lambda>k. example_now) (asc ''/m'')
          [asc ''Junk.mbox'' \<mapsto> ''old''] 0 = Inr (counts, out', t') \<and>
      out' (asc ''Junk'' @ asc ''.mbox'') = None \<and>
      (\<exists>out''. account_loop example_db elide_fs (\<lambda>k. example_now) (asc ''/m'')
                  ([] @ [(asc ''/m/In.mbox'', asc ''In'')])
                  ([asc ''Junk.mbox'' \<mapsto> ''old''], Map.empty, 0) = Inr (out'', counts, t')))"
proof -
  have mf: "mbox_folders elide_fs (asc ''/m'')
     = [] @ (asc ''/m/Junk.mbox'', asc ''Junk'') # [(asc ''/m/In.mbox'', asc ''In'')]"
    by (simp add: name_defs fs_defs elide_fs_def asc_simps)
  have f: "find_emlx_files elide_fs (asc ''/m/Junk.mbox'') = [asc ''/m/Junk.mbox/1.emlx'']"
    by (simp add: fs_defs elide_fs_def asc_simps)
  have p: "parse_emlx elide_fs (asc ''/m/Junk.mbox/1.emlx'') = None"
    by (simp add: fs_defs elide_fs_def asc_simps parse_emlx_bytes_def NL_def)
  have n1: "output_name example_db (asc ''/m'') (asc ''/m/Junk.mbox'') (asc ''Junk'') = asc ''Junk''"
    by (simp add: name_defs fs_defs asc_simps example_db_def)
  have n2: "output_name example_db (asc ''/m'') (asc ''/m/In.mbox'') (asc ''In'') = asc ''In''"
    by (simp add: name_defs fs_defs asc_simps example_db_def)
  have z: "\<forall>p \<in> set (find_emlx_files elide_fs (asc ''/m/Junk.mbox'')).
             parse_emlx elide_fs p = None \<or> parse_emlx elide_fs p = Some []"
    using p by (simp add: f)
  have ne: "asc ''In'' \<noteq> asc ''Junk''"
    by (simp add: asc_simps)
  have d: "\<forall>(fp, fn) \<in> set [(asc ''/m/In.mbox'', asc ''In'')].
             output_name example_db (asc ''/m'') fp fn
               \<noteq> output_name example_db (asc ''/m'') (asc ''/m/Junk.mbox'') (asc ''Junk'')"
    using ne by (simp add: n1 n2)
  show ?thesis
    using empty_folder_elided [OF mf z d, of "\<lambda>k. example_now" "[asc ''Junk.mbox'' \<mapsto> ''old'']" 0]
      mf f p n1 n2
    by (simp only: n1)
qed

end
